theory Spec2Isabelle
  imports Main "HOL-Library.Word" "HOL-Library.Extended_Nat"
begin

section \<open>Struct.js: a record layout over an array buffer\<close>

text \<open>
  The embedding follows \<^verbatim>\<open>src/Struct.js\<close> function by function. JavaScript names
  that start with an underscore lose it (\<^verbatim>\<open>_parseDefs\<close> is \<open>parseDefs\<close>), and a name
  that is already a constant of HOL gets a suffix.

  Numbers. The counts, offsets and totals that the compiler computes are JavaScript
  numbers: doubles that hold a non-negative integer, or \<^verbatim>\<open>Infinity\<close>. They are \<open>enat\<close>
  here, and every operation of the compiler rounds its result as a double does (see
  \<open>round_double\<close> below). An index into a buffer and the length of a buffer are \<open>nat\<close>.

  Strings. Descriptors, field names and rendered text are \<open>string\<close>. A descriptor with a
  code unit above 255 cannot be written down in this type; none of them matches \<open>rDef\<close>.
  The text stored in a \<open>cstring\<close> field is a list of UTF-16 code units, because the setter
  reads it with \<^verbatim>\<open>charCodeAt\<close>.
\<close>

subsection \<open>Values and errors\<close>

type_synonym byte = "8 word"
type_synonym jsstring = "16 word list"

datatype jsval = Num int | Str jsstring

text \<open>
  \<open>Error msg\<close> is \<^verbatim>\<open>throw new Error(msg)\<close> of the source. \<open>TypeError\<close> and
  \<open>RangeError\<close> are the exceptions of the runtime: reading a property of
  \<^verbatim>\<open>undefined\<close>, and an index outside the \<^verbatim>\<open>DataView\<close>.
\<close>

datatype error = Error string | TypeError | RangeError

subsection \<open>Numbers\<close>

text \<open>
  A double has 53 significant bits. \<open>ulp_exp n\<close> is the number of low bits of \<open>n\<close>
  that do not fit, and \<open>round_double n\<close> is the Number value of the natural number
  \<open>n\<close>: \<open>n\<close> itself when it fits, otherwise the nearest multiple of \<open>2 ^ ulp_exp n\<close>,
  the one with the even quotient when \<open>n\<close> lies half way between two, and
  \<^verbatim>\<open>Infinity\<close> from \<open>2 ^ 1024\<close> on. \<^verbatim>\<open>+\<close> and \<^verbatim>\<open>*\<close> on such numbers return the
  Number value of the exact result.
\<close>

function ulp_exp :: "nat \<Rightarrow> nat" where
  "ulp_exp n = (if n < 2 ^ 53 then 0 else Suc (ulp_exp (n div 2)))"
  by pat_completeness auto
termination
  by (relation "measure (\<lambda>n. n)") auto

declare ulp_exp.simps [simp del]

definition round_double :: "nat \<Rightarrow> enat" where
  "round_double n =
     (let e = ulp_exp n; q = n div 2 ^ e; r = n mod 2 ^ e
      in if e = 0 then enat n
         else (let q' = (if 2 ^ e < 2 * r \<or> (2 * r = 2 ^ e \<and> odd q) then q + 1 else q)
               in if 2 ^ 1024 \<le> q' * 2 ^ e then \<infinity> else enat (q' * 2 ^ e)))"

definition js_add :: "enat \<Rightarrow> enat \<Rightarrow> enat" where
  "js_add a b =
     (case a of
        enat x \<Rightarrow> (case b of enat y \<Rightarrow> round_double (x + y) | \<infinity> \<Rightarrow> \<infinity>)
      | \<infinity> \<Rightarrow> \<infinity>)"

definition js_mul :: "enat \<Rightarrow> enat \<Rightarrow> enat" where
  "js_mul a b =
     (case a of
        enat x \<Rightarrow> (case b of enat y \<Rightarrow> round_double (x * y) | \<infinity> \<Rightarrow> \<infinity>)
      | \<infinity> \<Rightarrow> \<infinity>)"

subsection \<open>The type table\<close>

datatype ftype = UInt8 | UInt16 | UInt32 | CString

fun type_name :: "ftype \<Rightarrow> string" where
  "type_name UInt8 = ''uint8''"
| "type_name UInt16 = ''uint16''"
| "type_name UInt32 = ''uint32''"
| "type_name CString = ''cstring''"

text \<open>The \<^verbatim>\<open>byteSize\<close> column of \<^verbatim>\<open>Struct._typeMap\<close>.\<close>

fun byteSize :: "ftype \<Rightarrow> nat" where
  "byteSize UInt8 = 1"
| "byteSize UInt16 = 2"
| "byteSize UInt32 = 4"
| "byteSize CString = 1"

subsection \<open>The descriptor pattern \<open>rDef\<close>\<close>

text \<open>
  \<^verbatim>\<open>/^(uint8|uint16|uint32|cstring) (\w+)(?:\[(\d+)\])?$/\<close>. The pattern has no flags, so
  \<^verbatim>\<open>\w\<close> is \<^verbatim>\<open>[A-Za-z0-9_]\<close>, \<^verbatim>\<open>\d\<close> is \<^verbatim>\<open>[0-9]\<close> and \<^verbatim>\<open>$\<close> is the end of the
  input. The matcher returns the three groups; the third is empty when the bracket
  suffix is absent, as \<^verbatim>\<open>RegExp.$3\<close> is.
\<close>

definition is_digit :: "char \<Rightarrow> bool" where
  "is_digit c \<longleftrightarrow> c \<in> set ''0123456789''"

definition is_word :: "char \<Rightarrow> bool" where
  "is_word c \<longleftrightarrow>
     c \<in> set ''abcdefghijklmnopqrstuvwxyzABCDEFGHIJKLMNOPQRSTUVWXYZ0123456789_''"

definition strip_prefix :: "string \<Rightarrow> string \<Rightarrow> string option" where
  "strip_prefix p s =
     (if take (length p) s = p then Some (drop (length p) s) else None)"

text \<open>Group 1 and the space after it; the alternatives are tried from left to right.\<close>

fun match_type :: "ftype list \<Rightarrow> string \<Rightarrow> (ftype \<times> string) option" where
  "match_type [] s = None"
| "match_type (t # ts) s =
     (case strip_prefix (type_name t @ '' '') s of
        Some r \<Rightarrow> Some (t, r)
      | None \<Rightarrow> match_type ts s)"

text \<open>The optional group \<^verbatim>\<open>(?:\[(\d+)\])?\<close> and the end of the input.\<close>

definition match_count :: "string \<Rightarrow> string option" where
  "match_count r =
     (case r of
        [] \<Rightarrow> Some []
      | c # r' \<Rightarrow>
          if c = CHR ''[''
             \<and> takeWhile is_digit r' \<noteq> []
             \<and> dropWhile is_digit r' = '']''
          then Some (takeWhile is_digit r')
          else None)"

definition rDef_exec :: "string \<Rightarrow> (ftype \<times> string \<times> string) option" where
  "rDef_exec s =
     (case match_type [UInt8, UInt16, UInt32, CString] s of
        None \<Rightarrow> None
      | Some (ty, r) \<Rightarrow>
          if takeWhile is_word r = [] then None
          else (case match_count (dropWhile is_word r) of
                  None \<Rightarrow> None
                | Some c \<Rightarrow> Some (ty, takeWhile is_word r, c)))"

text \<open>
  \<^verbatim>\<open>parseInt(s, 10)\<close> on the third group, which is empty or a row of digits. \<open>None\<close>
  is \<^verbatim>\<open>NaN\<close>; otherwise the result is the Number value of the integer that the digits
  write: the nearest double, \<^verbatim>\<open>Infinity\<close> for a very long row. (The standard lets an
  engine read the digits after the twentieth as zeros; the model takes the nearest
  double for every row.)
\<close>

definition digit_val :: "char \<Rightarrow> nat" where
  "digit_val c = of_char c - 48"

definition digits_value :: "string \<Rightarrow> nat" where
  "digits_value ds = foldl (\<lambda>n c. 10 * n + digit_val c) 0 ds"

definition parseInt10 :: "string \<Rightarrow> enat option" where
  "parseInt10 s =
     (if takeWhile is_digit s = [] then None
      else Some (round_double (digits_value (takeWhile is_digit s))))"

subsection \<open>The layout compiler\<close>

record def =
  def_type :: ftype
  def_offset :: enat
  def_length :: enat

type_synonym defmap = "string \<rightharpoonup> def"

text \<open>
  The body of the \<^verbatim>\<open>forEach\<close> callback of \<^verbatim>\<open>_parseDefs\<close>, on the pair of
  \<^verbatim>\<open>self._defMap\<close> and \<^verbatim>\<open>totalBytes\<close>. \<^verbatim>\<open>parseInt(...) || 1\<close> is 1 for \<^verbatim>\<open>NaN\<close>
  and for 0. The product \<^verbatim>\<open>length * byteSize\<close> and the sum \<^verbatim>\<open>totalBytes += ...\<close>
  are those of doubles. The assignment \<^verbatim>\<open>self._defMap[name] = ...\<close> replaces an entry of the same
  name. For the name \<^verbatim>\<open>__proto__\<close> the assignment sets the prototype of the map
  object, and a later read of \<^verbatim>\<open>_defMap['__proto__']\<close> returns that object: the model
  keeps it under its name like every other entry, and \<open>defMap_get\<close> below accounts
  for what the map then inherits.
\<close>

definition length_or_1 :: "string \<Rightarrow> enat" where
  "length_or_1 c = (case parseInt10 c of None \<Rightarrow> 1 | Some n \<Rightarrow> if n = 0 then 1 else n)"

definition parseDef :: "defmap \<times> enat \<Rightarrow> string \<Rightarrow> error + defmap \<times> enat" where
  "parseDef st d =
     (case rDef_exec d of
        Some (ty, name, c) \<Rightarrow>
          (let totalBytes = snd st;
               offset = totalBytes;
               len = length_or_1 c
           in Inr ((fst st)(name \<mapsto> \<lparr>def_type = ty, def_offset = offset, def_length = len\<rparr>),
                   js_add totalBytes (js_mul len (enat (byteSize ty)))))
      | None \<Rightarrow> Inl (Error (''Invalid Struct Definition: '' @ d)))"

fun parseDefs_loop :: "defmap \<times> enat \<Rightarrow> string list \<Rightarrow> error + defmap \<times> enat" where
  "parseDefs_loop st [] = Inr st"
| "parseDefs_loop st (d # ds) =
     (case parseDef st d of
        Inl e \<Rightarrow> Inl e
      | Inr st' \<Rightarrow> parseDefs_loop st' ds)"

definition parseDefs :: "string list \<Rightarrow> error + defmap \<times> enat" where
  "parseDefs defs = parseDefs_loop (Map.empty, 0) defs"

subsection \<open>The buffer and its \<^verbatim>\<open>DataView\<close>\<close>

text \<open>
  \<^verbatim>\<open>_buffer\<close> and \<^verbatim>\<open>_dataView\<close> are two views of the same bytes: one list. Every
  accessor of a \<^verbatim>\<open>DataView\<close> first checks that the bytes it touches lie inside the view
  and throws a \<^verbatim>\<open>RangeError\<close> otherwise, before anything is written. A stored number
  is reduced modulo \<open>2 ^ 8\<close>, \<open>2 ^ 16\<close> or \<open>2 ^ 32\<close>.
\<close>

fun le_bytes :: "nat \<Rightarrow> int \<Rightarrow> byte list" where
  "le_bytes 0 v = []"
| "le_bytes (Suc k) v = word_of_int v # le_bytes k (v div 256)"

fun le_value :: "byte list \<Rightarrow> int" where
  "le_value [] = 0"
| "le_value (b # bs) = uint b + 256 * le_value bs"

definition store_bytes :: "byte list \<Rightarrow> nat \<Rightarrow> byte list \<Rightarrow> byte list" where
  "store_bytes buf off bs = take off buf @ bs @ drop (off + length bs) buf"

definition setUint :: "nat \<Rightarrow> byte list \<Rightarrow> nat \<Rightarrow> int \<Rightarrow> bool \<Rightarrow> error + byte list" where
  "setUint n buf off v littleEndian =
     (if off + n \<le> length buf
      then Inr (store_bytes buf off
                  (if littleEndian then le_bytes n v else rev (le_bytes n v)))
      else Inl RangeError)"

definition getUint :: "nat \<Rightarrow> byte list \<Rightarrow> nat \<Rightarrow> bool \<Rightarrow> error + int" where
  "getUint n buf off littleEndian =
     (if off + n \<le> length buf
      then Inr (le_value (if littleEndian then take n (drop off buf)
                          else rev (take n (drop off buf))))
      else Inl RangeError)"

definition setUint8 :: "byte list \<Rightarrow> nat \<Rightarrow> int \<Rightarrow> error + byte list" where
  "setUint8 buf off v = setUint 1 buf off v False"

definition getUint8 :: "byte list \<Rightarrow> nat \<Rightarrow> error + int" where
  "getUint8 buf off = getUint 1 buf off False"

subsection \<open>The instance and its constructor\<close>

text \<open>
  \<open>LITTE_ENDIAN\<close> holds the third argument of the constructor as it was passed;
  \<open>None\<close> is \<^verbatim>\<open>undefined\<close>. The \<^verbatim>\<open>DataView\<close> reads it as a boolean, so only \<^verbatim>\<open>true\<close>
  selects little-endian.
\<close>

record struct =
  defMap :: defmap
  buffer :: "byte list"
  LITTE_ENDIAN :: "bool option"

definition littleEndian :: "struct \<Rightarrow> bool" where
  "littleEndian s \<longleftrightarrow> LITTE_ENDIAN s = Some True"

text \<open>
  \<^verbatim>\<open>buffer || new ArrayBuffer(totalBytes)\<close>: a buffer that is passed is taken as it is,
  whatever its size. \<^verbatim>\<open>new ArrayBuffer(n)\<close> is filled with zeros and throws a
  \<^verbatim>\<open>RangeError\<close> for \<open>n > 2 ^ 53 - 1\<close> and for \<^verbatim>\<open>Infinity\<close>; smaller limits of a
  particular engine are not modelled. A buffer that was passed is shared with the caller, who sees every byte
  written to it; the model returns the bytes with the instance.
\<close>

definition Struct :: "string list \<Rightarrow> byte list option \<Rightarrow> bool option \<Rightarrow> error + struct" where
  "Struct defs buf isLittleEndian =
     (case parseDefs defs of
        Inl e \<Rightarrow> Inl e
      | Inr (m, totalBytes) \<Rightarrow>
          (case buf of
             Some b \<Rightarrow> Inr \<lparr>defMap = m, buffer = b, LITTE_ENDIAN = isLittleEndian\<rparr>
           | None \<Rightarrow>
               (case totalBytes of
                  enat n \<Rightarrow>
                    if n \<le> 2 ^ 53 - 1
                    then Inr \<lparr>defMap = m, buffer = replicate n 0,
                              LITTE_ENDIAN = isLittleEndian\<rparr>
                    else Inl RangeError
                | \<infinity> \<Rightarrow> Inl RangeError)))"

definition getLength :: "struct \<Rightarrow> nat" where
  "getLength s = length (buffer s)"

subsection \<open>Looking a field up\<close>

text \<open>
  \<^verbatim>\<open>this._defMap[name]\<close> reads a property of an object created by \<^verbatim>\<open>{}\<close>, so a name
  that the object does not own is looked up along its prototype chain. The chain ends in
  \<^verbatim>\<open>Object.prototype\<close>, whose property names are listed below. When a descriptor named
  \<^verbatim>\<open>__proto__\<close> has been compiled, its entry stands between the two, and its fields
  \<^verbatim>\<open>type\<close>, \<^verbatim>\<open>offset\<close> and \<^verbatim>\<open>length\<close> are inherited as well. \<open>PInherited b\<close> is such a
  value, which is not a layout entry; \<open>b\<close> says whether it is truthy.
\<close>

datatype jsprop = PUndefined | PDef def | PInherited bool

definition objproto_names :: "string list" where
  "objproto_names =
     [''constructor'', ''__defineGetter__'', ''__defineSetter__'', ''hasOwnProperty'',
      ''__lookupGetter__'', ''__lookupSetter__'', ''isPrototypeOf'',
      ''propertyIsEnumerable'', ''toString'', ''valueOf'', ''__proto__'',
      ''toLocaleString'']"

definition defMap_get :: "defmap \<Rightarrow> string \<Rightarrow> jsprop" where
  "defMap_get m name =
     (case m name of
        Some d \<Rightarrow> PDef d
      | None \<Rightarrow>
          (case m ''__proto__'' of
             Some p \<Rightarrow>
               if name = ''type'' then PInherited True
               else if name = ''offset'' then PInherited (def_offset p \<noteq> 0)
               else if name = ''length'' then PInherited (def_length p \<noteq> 0)
               else if name \<in> set objproto_names then PInherited True
               else PUndefined
           | None \<Rightarrow>
               if name \<in> set objproto_names then PInherited True else PUndefined))"

fun truthy :: "jsprop \<Rightarrow> bool" where
  "truthy PUndefined = False"
| "truthy (PDef d) = True"
| "truthy (PInherited b) = b"

definition getDefByName :: "struct \<Rightarrow> string \<Rightarrow> error + jsprop" where
  "getDefByName s name =
     (let d = defMap_get (defMap s) name
      in if \<not> truthy d then Inl (Error (name @ ''does not defined'')) else Inr d)"

subsection \<open>Setters and getters of the type table\<close>

text \<open>
  A setter changes the bytes in place and may throw half way, so it returns the
  exception, if any, together with the instance as the call left it.

  The offset of an entry is a number of the compiler. The \<^verbatim>\<open>DataView\<close> throws a
  \<^verbatim>\<open>RangeError\<close> for the index \<^verbatim>\<open>Infinity\<close>; a finite index goes through the range
  check of the accessor. Inside the buffer the increments \<^verbatim>\<open>offset++\<close> and \<^verbatim>\<open>i++\<close> of
  the two \<open>cstring\<close> loops are exact, so the loops count in \<open>nat\<close>. A string has
  fewer than \<open>2 ^ 53\<close> code units, so \<^verbatim>\<open>Math.min(value.length, length - 1)\<close> is the
  length of the string for every capacity from \<open>2 ^ 53\<close> on, where \<^verbatim>\<open>length - 1\<close>
  may round, and the difference is the exact one below.

  The value passed to \<^verbatim>\<open>set\<close> is a number with an integer value or a string. An integer
  setter hands it to the \<^verbatim>\<open>DataView\<close>, which converts a string with the runtime's
  \<^verbatim>\<open>ToNumber\<close>; that conversion is not code of this repository and is the parameter
  \<open>toNumber\<close>. The \<open>cstring\<close> setter reads \<^verbatim>\<open>value.length\<close>, which is \<^verbatim>\<open>undefined\<close>
  for a number: \<^verbatim>\<open>Math.min\<close> is then \<^verbatim>\<open>NaN\<close>, the loop does not run and only the zero
  byte is written. With the offset \<^verbatim>\<open>Infinity\<close> the first call of \<^verbatim>\<open>setUint8\<close>, in the
  loop or after it, throws.
\<close>

definition at_offset :: "enat \<Rightarrow> (nat \<Rightarrow> error + 'a) \<Rightarrow> error + 'a" where
  "at_offset offset access = (case offset of enat off \<Rightarrow> access off | \<infinity> \<Rightarrow> Inl RangeError)"

definition ToNumber :: "(jsstring \<Rightarrow> int) \<Rightarrow> jsval \<Rightarrow> int" where
  "ToNumber toNumber v = (case v of Num n \<Rightarrow> n | Str cs \<Rightarrow> toNumber cs)"

definition put :: "struct \<Rightarrow> error + byte list \<Rightarrow> error option \<times> struct" where
  "put s r = (case r of Inl e \<Rightarrow> (Some e, s) | Inr b \<Rightarrow> (None, s\<lparr>buffer := b\<rparr>))"

function setter_cstring_loop ::
  "jsstring \<Rightarrow> int \<Rightarrow> nat \<Rightarrow> byte list \<Rightarrow> nat \<Rightarrow> error option \<times> byte list \<times> nat" where
  "setter_cstring_loop val len i buf offset =
     (if int i < len
      then (case setUint8 buf offset (uint (val ! i)) of
              Inl e \<Rightarrow> (Some e, buf, offset)
            | Inr buf' \<Rightarrow> setter_cstring_loop val len (i + 1) buf' (offset + 1))
      else (None, buf, offset))"
  by pat_completeness auto
termination
  by (relation "measure (\<lambda>(val, len, i, buf, offset). nat (len - int i))") auto

definition setter_cstring :: "struct \<Rightarrow> jsval \<Rightarrow> enat \<Rightarrow> enat \<Rightarrow> error option \<times> struct" where
  "setter_cstring s v offset len_f =
     (case offset of
        \<infinity> \<Rightarrow> (Some RangeError, s)
      | enat start \<Rightarrow>
          (case v of
             Num n \<Rightarrow> put s (setUint8 (buffer s) start 0)
           | Str val \<Rightarrow>
               (let len = (case len_f of
                             enat c \<Rightarrow> min (int (length val)) (int c - 1)
                           | \<infinity> \<Rightarrow> int (length val))
                in case setter_cstring_loop val len 0 (buffer s) start of
                     (Some e, buf, off) \<Rightarrow> (Some e, s\<lparr>buffer := buf\<rparr>)
                   | (None, buf, off) \<Rightarrow> put (s\<lparr>buffer := buf\<rparr>) (setUint8 buf off 0))))"

fun setter ::
  "(jsstring \<Rightarrow> int) \<Rightarrow> ftype \<Rightarrow> struct \<Rightarrow> jsval \<Rightarrow> enat \<Rightarrow> enat \<Rightarrow> error option \<times> struct" where
  "setter tn UInt8 s v offset len_f =
     put s (at_offset offset (\<lambda>off. setUint8 (buffer s) off (ToNumber tn v)))"
| "setter tn UInt16 s v offset len_f =
     put s (at_offset offset (\<lambda>off. setUint 2 (buffer s) off (ToNumber tn v) (littleEndian s)))"
| "setter tn UInt32 s v offset len_f =
     put s (at_offset offset (\<lambda>off. setUint 4 (buffer s) off (ToNumber tn v) (littleEndian s)))"
| "setter tn CString s v offset len_f = setter_cstring s v offset len_f"

text \<open>
  The loop of the \<open>cstring\<close> getter runs while \<^verbatim>\<open>i < length\<close>, and \<open>length\<close> may be
  \<^verbatim>\<open>Infinity\<close>; it ends at a zero byte or with the \<^verbatim>\<open>RangeError\<close> of the read behind
  the last byte of the buffer.
\<close>

function getter_cstring_loop ::
  "byte list \<Rightarrow> enat \<Rightarrow> nat \<Rightarrow> nat \<Rightarrow> jsstring \<Rightarrow> error + jsstring" where
  "getter_cstring_loop buf len_f i offset str =
     (if enat i < len_f
      then (case getUint8 buf offset of
              Inl e \<Rightarrow> Inl e
            | Inr c \<Rightarrow>
                if c = 0 then Inr str
                else getter_cstring_loop buf len_f (i + 1) (offset + 1)
                       (str @ [word_of_int c]))
      else Inr str)"
  by pat_completeness auto
termination
  by (relation "measure (\<lambda>(buf, len_f, i, offset, str). length buf - offset)")
     (auto simp: getUint8_def getUint_def split: if_splits)

fun getter :: "ftype \<Rightarrow> struct \<Rightarrow> enat \<Rightarrow> enat \<Rightarrow> error + jsval" where
  "getter UInt8 s offset len_f =
     map_sum id Num (at_offset offset (\<lambda>off. getUint8 (buffer s) off))"
| "getter UInt16 s offset len_f =
     map_sum id Num (at_offset offset (\<lambda>off. getUint 2 (buffer s) off (littleEndian s)))"
| "getter UInt32 s offset len_f =
     map_sum id Num (at_offset offset (\<lambda>off. getUint 4 (buffer s) off (littleEndian s)))"
| "getter CString s offset len_f =
     map_sum id Str
       (case offset of
          enat start \<Rightarrow> getter_cstring_loop (buffer s) len_f 0 start []
        | \<infinity> \<Rightarrow> if 0 < len_f then Inl RangeError else Inr [])"

subsection \<open>\<^verbatim>\<open>set\<close> and \<^verbatim>\<open>get\<close>\<close>

text \<open>
  \<^verbatim>\<open>_getDefByName\<close> lets every truthy value pass. For one that is not a layout entry,
  \<^verbatim>\<open>def.type\<close> is \<^verbatim>\<open>undefined\<close>, the type table has no such row, and reading
  \<^verbatim>\<open>.setter\<close> or \<^verbatim>\<open>.getter\<close> of \<^verbatim>\<open>undefined\<close> throws a \<^verbatim>\<open>TypeError\<close>.
\<close>

definition set_field ::
  "(jsstring \<Rightarrow> int) \<Rightarrow> struct \<Rightarrow> string \<Rightarrow> jsval \<Rightarrow> error option \<times> struct" where
  "set_field tn s name v =
     (case getDefByName s name of
        Inl e \<Rightarrow> (Some e, s)
      | Inr (PDef d) \<Rightarrow> setter tn (def_type d) s v (def_offset d) (def_length d)
      | Inr _ \<Rightarrow> (Some TypeError, s))"

definition get_field :: "struct \<Rightarrow> string \<Rightarrow> error + jsval" where
  "get_field s name =
     (case getDefByName s name of
        Inl e \<Rightarrow> Inl e
      | Inr (PDef d) \<Rightarrow> getter (def_type d) s (def_offset d) (def_length d)
      | Inr _ \<Rightarrow> Inl TypeError)"

subsection \<open>Rendering\<close>

text \<open>
  \<^verbatim>\<open>eachByte\<close> calls back once per byte of the buffer; what the callback does to the
  variables it closes over is the accumulator.
\<close>

function eachByte_loop ::
  "struct \<Rightarrow> (int \<Rightarrow> nat \<Rightarrow> 'a \<Rightarrow> 'a) \<Rightarrow> nat \<Rightarrow> nat \<Rightarrow> 'a \<Rightarrow> error + 'a" where
  "eachByte_loop s callback i len acc =
     (if i < len
      then (case getUint8 (buffer s) i of
              Inl e \<Rightarrow> Inl e
            | Inr v \<Rightarrow> eachByte_loop s callback (i + 1) len (callback v i acc))
      else Inr acc)"
  by pat_completeness auto
termination
  by (relation "measure (\<lambda>(s, callback, i, len, acc). len - i)") auto

definition eachByte :: "struct \<Rightarrow> (int \<Rightarrow> nat \<Rightarrow> 'a \<Rightarrow> 'a) \<Rightarrow> 'a \<Rightarrow> error + 'a" where
  "eachByte s callback acc = eachByte_loop s callback 0 (getLength s) acc"

text \<open>
  \<^verbatim>\<open>while (len--)\<close> stops when \<open>len\<close> is 0 before the decrement, so it does not stop for
  a negative \<open>len\<close>: the loop is a partial function, and \<open>None\<close> is a call that does not
  return.
\<close>

partial_function (option) padZero_loop :: "string \<Rightarrow> int \<Rightarrow> string option" where
  "padZero_loop str len =
     (if len \<noteq> 0 then padZero_loop (CHR ''0'' # str) (len - 1) else Some str)"

definition padZero :: "string \<Rightarrow> nat \<Rightarrow> string option" where
  "padZero str count = padZero_loop str (int count - int (length str))"

text \<open>
  \<^verbatim>\<open>v.toString(radix)\<close> for a number \<open>v\<close> that is a non-negative integer. The source
  calls it with the radix 16 and 2 only.
\<close>

definition digit_char :: "nat \<Rightarrow> char" where
  "digit_char d = ''0123456789abcdefghijklmnopqrstuvwxyz'' ! d"

function number_toString :: "nat \<Rightarrow> nat \<Rightarrow> string" where
  "number_toString radix n =
     (if 2 \<le> radix \<and> radix \<le> n
      then number_toString radix (n div radix) @ [digit_char (n mod radix)]
      else [digit_char n])"
  by pat_completeness auto
termination
  by (relation "measure (\<lambda>(radix, n). n)") auto

declare number_toString.simps [simp del]

text \<open>
  The two renderers of \<^verbatim>\<open>Struct._toStringMap\<close>. The result is \<open>None\<close> when
  \<^verbatim>\<open>_padZero\<close> does not return.
\<close>

definition render_cb :: "nat \<Rightarrow> nat \<Rightarrow> int \<Rightarrow> nat \<Rightarrow> string option \<Rightarrow> string option" where
  "render_cb radix width v i acc =
     (case acc of
        None \<Rightarrow> None
      | Some str \<Rightarrow>
          (case padZero (number_toString radix (nat v)) width of
             None \<Rightarrow> None
           | Some digits \<Rightarrow> Some (str @ digits)))"

definition toString_hex :: "struct \<Rightarrow> error + string option" where
  "toString_hex s = eachByte s (render_cb 16 2) (Some [])"

definition toString_binary :: "struct \<Rightarrow> error + string option" where
  "toString_binary s = eachByte s (render_cb 2 8) (Some [])"

text \<open>
  \<^verbatim>\<open>type = type || 'hex'\<close> replaces a mode that was not passed (\<open>None\<close>) and the empty
  string. \<^verbatim>\<open>Struct._toStringMap[type]\<close> is again a property read of a plain object. For
  a name that the table does not own and \<^verbatim>\<open>Object.prototype\<close> does not have it is
  \<^verbatim>\<open>undefined\<close>, and \<^verbatim>\<open>.call\<close> of it throws a \<^verbatim>\<open>TypeError\<close>; so it does for
  \<^verbatim>\<open>__proto__\<close>, which is an object without a \<^verbatim>\<open>call\<close>. The other names of
  \<^verbatim>\<open>Object.prototype\<close> are built-in functions, which are called on the instance:
  \<open>Builtin name\<close> stands for that call, whose outcome is not modelled. \<open>NoReturn\<close> is a
  renderer that does not return.
\<close>

datatype rendered = Text string | Builtin string | NoReturn

definition text_of :: "error + string option \<Rightarrow> error + rendered" where
  "text_of r =
     (case r of Inl e \<Rightarrow> Inl e | Inr None \<Rightarrow> Inr NoReturn | Inr (Some str) \<Rightarrow> Inr (Text str))"

definition toString :: "struct \<Rightarrow> string option \<Rightarrow> error + rendered" where
  "toString s mode =
     (let type = (case mode of None \<Rightarrow> ''hex'' | Some t \<Rightarrow> if t = [] then ''hex'' else t)
      in if type = ''hex'' then text_of (toString_hex s)
         else if type = ''binary'' then text_of (toString_binary s)
         else if type = ''__proto__'' then Inl TypeError
         else if type \<in> set objproto_names then Inr (Builtin type)
         else Inl TypeError)"

subsection \<open>Notions of the specification\<close>

text \<open>
  The grammar of a descriptor in the words of the specification: a type name, one
  space, a non-empty name of word characters and, optionally, a non-empty decimal count
  in brackets. \<open>suffix_of c\<close> is the bracket suffix that carries the count \<open>c\<close>.
\<close>

definition suffix_of :: "string \<Rightarrow> string" where
  "suffix_of c = (if c = [] then [] else ''['' @ c @ '']'')"

definition conforms :: "string \<Rightarrow> bool" where
  "conforms d \<longleftrightarrow>
     (\<exists>ty name sfx.
        d = type_name ty @ '' '' @ name @ sfx \<and> name \<noteq> [] \<and> list_all is_word name \<and>
        (sfx = [] \<or>
         (\<exists>count. count \<noteq> [] \<and> list_all is_digit count \<and> sfx = ''['' @ count @ '']'')))"

text \<open>
  The layout of a descriptor sequence in the words of the specification, in exact
  arithmetic. \<open>count_of c\<close> is the count that the third group \<open>c\<close> writes, 1 when it
  is absent or zero; the footprint of a descriptor is its count times the byte size of
  a unit; \<open>desc_entry off d\<close> is the entry of the descriptor \<open>d\<close> at the offset
  \<open>off\<close>; \<open>offset_at defs i\<close> is the sum of the footprints of the descriptors before
  the \<open>i\<close>-th; \<open>layout_map\<close> enters the descriptors into a map one after the other,
  a later one replacing an earlier one of the same name.
\<close>

definition desc_name :: "string \<Rightarrow> string" where
  "desc_name d = (case rDef_exec d of Some (ty, name, c) \<Rightarrow> name | None \<Rightarrow> [])"

definition count_of :: "string \<Rightarrow> nat" where
  "count_of c =
     (if takeWhile is_digit c = [] \<or> digits_value (takeWhile is_digit c) = 0 then 1
      else digits_value (takeWhile is_digit c))"

definition footprint :: "string \<Rightarrow> nat" where
  "footprint d =
     (case rDef_exec d of Some (ty, name, c) \<Rightarrow> count_of c * byteSize ty | None \<Rightarrow> 0)"

definition desc_entry :: "nat \<Rightarrow> string \<Rightarrow> def" where
  "desc_entry off d =
     (case rDef_exec d of
        Some (ty, name, c) \<Rightarrow>
          \<lparr>def_type = ty, def_offset = enat off, def_length = enat (count_of c)\<rparr>
      | None \<Rightarrow> \<lparr>def_type = UInt8, def_offset = enat off, def_length = 0\<rparr>)"

definition offset_at :: "string list \<Rightarrow> nat \<Rightarrow> nat" where
  "offset_at defs i = sum_list (map footprint (take i defs))"

fun layout_map :: "defmap \<Rightarrow> nat \<Rightarrow> string list \<Rightarrow> defmap" where
  "layout_map m t [] = m"
| "layout_map m t (d # ds) =
     layout_map (m(desc_name d \<mapsto> desc_entry t d)) (t + footprint d) ds"

text \<open>The number of bytes that an entry of the map stands for.\<close>

definition def_footprint :: "def \<Rightarrow> enat" where
  "def_footprint e = def_length e * enat (byteSize (def_type e))"

text \<open>A number written with exactly \<open>k\<close> digits in the given radix, zero-padded.\<close>

fun fixed_digits :: "nat \<Rightarrow> nat \<Rightarrow> nat \<Rightarrow> string" where
  "fixed_digits radix 0 n = []"
| "fixed_digits radix (Suc k) n =
     fixed_digits radix k (n div radix) @ [digit_char (n mod radix)]"

text \<open>
  The bytes of a layout entry lie inside the buffer of an instance. This is the case
  for every entry of an instance that allocated its own buffer.
\<close>

definition fits :: "struct \<Rightarrow> def \<Rightarrow> bool" where
  "fits s d \<longleftrightarrow>
     0 < def_length d \<and> def_offset d + def_footprint d \<le> enat (length (buffer s))"

section \<open>Properties\<close>

subsection \<open>The pattern accepts exactly the grammar\<close>

lemma strip_prefix_append: "strip_prefix p (p @ r) = Some r"
  by (simp add: strip_prefix_def)

lemma strip_prefix_Some: "strip_prefix p s = Some r \<Longrightarrow> s = p @ r"
  by (metis append_take_drop_id option.distinct(1) option.inject strip_prefix_def)

lemma match_type_complete:
  "match_type [UInt8, UInt16, UInt32, CString] (type_name ty @ CHR '' '' # r) = Some (ty, r)"
  by (cases ty) (simp_all add: strip_prefix_def)

lemma match_type_sound:
  "match_type ts s = Some (ty, r) \<Longrightarrow> s = type_name ty @ '' '' @ r"
  by (induction ts) (auto split: option.splits dest: strip_prefix_Some)

lemma takeWhile_stop:
  "list_all P xs \<Longrightarrow> ys = [] \<or> \<not> P (hd ys) \<Longrightarrow> takeWhile P (xs @ ys) = xs"
  by (induction xs) (cases ys; simp)+

lemma dropWhile_stop:
  "list_all P xs \<Longrightarrow> ys = [] \<or> \<not> P (hd ys) \<Longrightarrow> dropWhile P (xs @ ys) = ys"
  by (induction xs) (cases ys; simp)+

lemma bracket_not_word: "\<not> is_word CHR ''[''"
  by (simp add: is_word_def)

lemma bracket_not_digit: "\<not> is_digit CHR '']''"
  by (simp add: is_digit_def)

lemma match_count_empty: "match_count [] = Some []"
  by (simp add: match_count_def)

lemma match_count_bracket:
  assumes "count \<noteq> []" "list_all is_digit count"
  shows "match_count (''['' @ count @ '']'') = Some count"
proof -
  have t: "takeWhile is_digit (count @ '']'') = count"
    using assms(2) by (rule takeWhile_stop) (simp add: bracket_not_digit)
  have d: "dropWhile is_digit (count @ '']'') = '']''"
    using assms(2) by (rule dropWhile_stop) (simp add: bracket_not_digit)
  show ?thesis using assms(1) t d by (simp add: match_count_def)
qed

lemma match_count_sound:
  assumes "match_count r = Some c"
  shows "r = suffix_of c \<and> list_all is_digit c"
proof (cases r)
  case Nil
  with assms show ?thesis by (simp add: match_count_def suffix_of_def)
next
  case (Cons x r')
  with assms have x: "x = CHR ''[''" and c: "c = takeWhile is_digit r'" and ne: "c \<noteq> []"
    and d: "dropWhile is_digit r' = '']''"
    by (auto simp: match_count_def split: if_splits)
  have "r' = c @ '']''" using c d takeWhile_dropWhile_id [of is_digit r'] by simp
  moreover have "list_all is_digit c" unfolding c list_all_iff by (auto dest: set_takeWhileD)
  ultimately show ?thesis using Cons x ne by (simp add: suffix_of_def)
qed

lemma rDef_exec_complete:
  assumes "name \<noteq> []" "list_all is_word name"
    and "c = [] \<or> list_all is_digit c"
  shows "rDef_exec (type_name ty @ '' '' @ name @ suffix_of c) = Some (ty, name, c)"
proof -
  have stop: "suffix_of c = [] \<or> \<not> is_word (hd (suffix_of c))"
    by (simp add: suffix_of_def bracket_not_word)
  have t: "takeWhile is_word (name @ suffix_of c) = name"
    using assms(2) stop by (rule takeWhile_stop)
  have d: "dropWhile is_word (name @ suffix_of c) = suffix_of c"
    using assms(2) stop by (rule dropWhile_stop)
  have m: "match_count (suffix_of c) = Some c"
    using assms(3) match_count_bracket [of c] by (auto simp: suffix_of_def match_count_empty)
  show ?thesis
    using assms(1) by (simp add: rDef_exec_def match_type_complete t d m del: match_type.simps)
qed

lemma rDef_exec_sound:
  assumes "rDef_exec d = Some (ty, name, c)"
  shows "d = type_name ty @ '' '' @ name @ suffix_of c \<and> name \<noteq> [] \<and>
         list_all is_word name \<and> list_all is_digit c"
proof -
  from assms obtain r where mt: "match_type [UInt8, UInt16, UInt32, CString] d = Some (ty, r)"
    and nm: "name = takeWhile is_word r" and ne: "name \<noteq> []"
    and mc: "match_count (dropWhile is_word r) = Some c"
    by (auto simp: rDef_exec_def split: option.splits if_splits)
  have "d = type_name ty @ '' '' @ r" using mt by (rule match_type_sound)
  moreover have "r = name @ suffix_of c"
    using nm match_count_sound [OF mc] takeWhile_dropWhile_id [of is_word r] by simp
  moreover have "list_all is_word name" unfolding nm list_all_iff by (auto dest: set_takeWhileD)
  ultimately show ?thesis using ne match_count_sound [OF mc] by simp
qed

lemma conforms_iff: "conforms d \<longleftrightarrow> rDef_exec d \<noteq> None"
proof
  assume "conforms d"
  then obtain ty name sfx where d: "d = type_name ty @ '' '' @ name @ sfx"
    and n: "name \<noteq> []" "list_all is_word name"
    and s: "sfx = [] \<or> (\<exists>count. count \<noteq> [] \<and> list_all is_digit count \<and> sfx = ''['' @ count @ '']'')"
    unfolding conforms_def by blast
  from s have "\<exists>c. sfx = suffix_of c \<and> (c = [] \<or> list_all is_digit c)"
  proof
    assume "sfx = []"
    then have "sfx = suffix_of [] \<and> ([] = [] \<or> list_all is_digit [])"
      by (simp add: suffix_of_def)
    then show ?thesis by blast
  next
    assume "\<exists>count. count \<noteq> [] \<and> list_all is_digit count \<and> sfx = ''['' @ count @ '']''"
    then obtain count where "count \<noteq> []" "list_all is_digit count" "sfx = ''['' @ count @ '']''"
      by blast
    then have "sfx = suffix_of count \<and> (count = [] \<or> list_all is_digit count)"
      by (simp add: suffix_of_def)
    then show ?thesis by blast
  qed
  then obtain c where "sfx = suffix_of c" "c = [] \<or> list_all is_digit c" by blast
  with d n show "rDef_exec d \<noteq> None" using rDef_exec_complete [of name c ty] by simp
next
  assume "rDef_exec d \<noteq> None"
  then obtain ty name c where "rDef_exec d = Some (ty, name, c)" by auto
  from rDef_exec_sound [OF this]
  have d: "d = type_name ty @ '' '' @ name @ suffix_of c" and n: "name \<noteq> []" "list_all is_word name"
    and c: "list_all is_digit c" by simp_all
  have "suffix_of c = [] \<or>
        (\<exists>count. count \<noteq> [] \<and> list_all is_digit count \<and> suffix_of c = ''['' @ count @ '']'')"
    using c by (cases "c = []") (auto simp: suffix_of_def)
  with d n show "conforms d" unfolding conforms_def by blast
qed

subsection \<open>Numbers\<close>

lemma ulp_exp_small: "n < 2 ^ 53 \<Longrightarrow> ulp_exp n = 0"
  by (subst ulp_exp.simps) simp

lemma ulp_exp_big: "\<not> n < 2 ^ 53 \<Longrightarrow> ulp_exp n = Suc (ulp_exp (n div 2))"
  by (subst ulp_exp.simps) simp

lemma ulp_exp_quotient:
  "\<not> n < 2 ^ 53 \<Longrightarrow> 2 ^ 52 \<le> n div 2 ^ ulp_exp n \<and> n div 2 ^ ulp_exp n < 2 ^ 53"
proof (induction n rule: ulp_exp.induct)
  case (1 n)
  show ?case
  proof (cases "n div 2 < 2 ^ 53")
    case True
    then have e: "ulp_exp n = Suc 0"
      using "1.prems" by (simp add: ulp_exp_big ulp_exp_small)
    from "1.prems" have "2 ^ 52 \<le> n div 2" by simp
    with True e show ?thesis by simp
  next
    case False
    have e: "ulp_exp n = Suc (ulp_exp (n div 2))"
      using "1.prems" by (rule ulp_exp_big)
    have "n div 2 ^ Suc (ulp_exp (n div 2)) = (n div 2) div 2 ^ ulp_exp (n div 2)"
      by (simp add: div_mult2_eq)
    with "1.IH" [OF "1.prems" False] e show ?thesis by simp
  qed
qed

text \<open>Up to \<open>2 ^ 53\<close> every natural number is a double.\<close>

lemma round_double_exact: "n \<le> 2 ^ 53 \<Longrightarrow> round_double n = enat n"
proof (cases "n < 2 ^ 53")
  case True
  then show ?thesis by (simp add: round_double_def ulp_exp_small)
next
  case False
  assume "n \<le> 2 ^ 53"
  with False have n: "n = 2 ^ 53" by simp
  have e: "ulp_exp (2 ^ 53) = Suc 0"
    by (simp add: ulp_exp_big ulp_exp_small)
  show ?thesis unfolding n round_double_def e by (simp add: Let_def)
qed

text \<open>A number from \<open>2 ^ 53\<close> on does not round to one below.\<close>

lemma round_double_ge:
  assumes "\<not> n < 2 ^ 53"
  shows "enat (2 ^ 53) \<le> round_double n"
proof -
  let ?e = "ulp_exp n"
  let ?q = "n div 2 ^ ?e"
  from assms have e: "?e \<noteq> 0" by (simp add: ulp_exp_big)
  from ulp_exp_quotient [OF assms] have q: "2 ^ 52 \<le> ?q" by simp
  have "(2::nat) ^ 1 \<le> 2 ^ ?e" using e by (intro power_increasing) simp_all
  then have "(2::nat) ^ 52 * 2 ^ 1 \<le> ?q * 2 ^ ?e" using q by (intro mult_le_mono)
  then have a: "(2::nat) ^ 53 \<le> ?q * 2 ^ ?e" by simp
  then have b: "(2::nat) ^ 53 \<le> (?q + 1) * 2 ^ ?e" by (simp add: add_mult_distrib)
  show ?thesis
    using e a b by (auto simp: round_double_def Let_def)
qed

lemma round_double_small:
  assumes "round_double n = enat y" and "y < 2 ^ 53"
  shows "n = y"
proof (cases "n < 2 ^ 53")
  case True
  with assms(1) show ?thesis by (simp add: round_double_exact)
next
  case False
  from round_double_ge [OF this] assms show ?thesis by simp
qed

lemma js_add_enat [simp]: "js_add (enat x) (enat y) = round_double (x + y)"
  by (simp add: js_add_def)

lemma js_mul_enat [simp]: "js_mul (enat x) (enat y) = round_double (x * y)"
  by (simp add: js_mul_def)

lemma js_add_exact: "x + y \<le> 2 ^ 53 \<Longrightarrow> js_add (enat x) (enat y) = enat (x + y)"
  by (simp add: round_double_exact)

lemma js_mul_exact: "x * y \<le> 2 ^ 53 \<Longrightarrow> js_mul (enat x) (enat y) = enat (x * y)"
  by (simp add: round_double_exact)

lemma js_add_small:
  assumes "js_add a b = enat t" and "t < 2 ^ 53"
  shows "\<exists>x y. a = enat x \<and> b = enat y \<and> x + y = t"
proof -
  from assms(1) obtain x y where a: "a = enat x" and b: "b = enat y"
    by (cases a; cases b) (simp_all add: js_add_def)
  with assms(1) have "round_double (x + y) = enat t" by simp
  from round_double_small [OF this assms(2)] a b show ?thesis by simp
qed

lemma js_mul_small:
  assumes "js_mul a b = enat t" and "t < 2 ^ 53"
  shows "\<exists>x y. a = enat x \<and> b = enat y \<and> x * y = t"
proof -
  from assms(1) obtain x y where a: "a = enat x" and b: "b = enat y"
    by (cases a; cases b) (simp_all add: js_mul_def)
  with assms(1) have "round_double (x * y) = enat t" by simp
  from round_double_small [OF this assms(2)] a b show ?thesis by simp
qed

subsection \<open>One step of the compiler\<close>

lemma parseDef_Some:
  "rDef_exec d = Some (ty, name, c) \<Longrightarrow>
   parseDef (m, t) d =
     Inr (m(name \<mapsto> \<lparr>def_type = ty, def_offset = t, def_length = length_or_1 c\<rparr>),
          js_add t (js_mul (length_or_1 c) (enat (byteSize ty))))"
  by (simp add: parseDef_def Let_def)

lemma parseDef_None:
  "rDef_exec d = None \<Longrightarrow> parseDef st d = Inl (Error (''Invalid Struct Definition: '' @ d))"
  by (simp add: parseDef_def)

text \<open>The count that the compiler reads is the exact one when that is at most \<open>2 ^ 53\<close>.\<close>

lemma count_of_pos: "0 < count_of c"
  by (simp add: count_of_def)

lemma length_or_1_exact: "count_of c \<le> 2 ^ 53 \<Longrightarrow> length_or_1 c = enat (count_of c)"
  by (auto simp: length_or_1_def count_of_def parseInt10_def round_double_exact
      zero_enat_def one_enat_def)

lemma length_or_1_small:
  assumes "length_or_1 c = enat l" and "l < 2 ^ 53"
  shows "count_of c = l"
proof (cases "takeWhile is_digit c = []")
  case True
  with assms(1) show ?thesis
    by (simp add: length_or_1_def count_of_def parseInt10_def one_enat_def)
next
  case False
  let ?v = "digits_value (takeWhile is_digit c)"
  show ?thesis
  proof (cases "round_double ?v = 0")
    case True
    then have "round_double ?v = enat 0" by (simp add: zero_enat_def)
    then have "?v = 0" by (rule round_double_small) simp
    with assms(1) False True show ?thesis
      by (simp add: length_or_1_def count_of_def parseInt10_def one_enat_def)
  next
    case nz: False
    with assms(1) False have r: "round_double ?v = enat l"
      by (simp add: length_or_1_def parseInt10_def)
    from round_double_small [OF r assms(2)] have v: "?v = l" .
    with nz r have "?v \<noteq> 0" by (auto simp: zero_enat_def)
    with False v show ?thesis by (simp add: count_of_def)
  qed
qed

lemma length_or_1_pos: "0 < length_or_1 c"
  by (auto simp: length_or_1_def split: option.splits)

lemma byteSize_pos: "0 < byteSize ty"
  by (cases ty) simp_all

lemma byteSize_le: "byteSize ty \<le> 4"
  by (cases ty) simp_all

subsection \<open>A count of zero\<close>

lemma digits_value_zeros:
  "list_all (\<lambda>c. c = CHR ''0'') zeros \<Longrightarrow> digits_value zeros = 0"
  unfolding digits_value_def by (induction zeros) (auto simp: digit_val_def)

lemma zeros_digits: "list_all (\<lambda>c. c = CHR ''0'') zeros \<Longrightarrow> list_all is_digit zeros"
  by (induction zeros) (auto simp: is_digit_def)

lemma parseInt10_zeros:
  assumes "zeros \<noteq> []" "list_all (\<lambda>c. c = CHR ''0'') zeros"
  shows "parseInt10 zeros = Some 0"
proof -
  have "list_all is_digit zeros" using assms(2) by (rule zeros_digits)
  then have t: "takeWhile is_digit zeros = zeros"
    by (simp add: list_all_iff)
  show ?thesis
    unfolding parseInt10_def t using assms(1) digits_value_zeros [OF assms(2)]
    by (simp add: round_double_exact zero_enat_def)
qed

lemma length_or_1_one: "length_or_1 ''1'' = 1"
  by (simp add: length_or_1_def parseInt10_def is_digit_def digits_value_def digit_val_def
      round_double_exact one_enat_def zero_enat_def)

text \<open>
  C10: a descriptor with an explicit count of zero (a bracket suffix of one or more
  zeros) compiles, and the count is taken as 1: whatever the state of the compiler, the
  entry has length 1 and the step is that of the same descriptor with the count 1. The
  running total grows, by the compiler's addition, by the byte size of one unit, which
  is the exact sum up to \<open>2 ^ 53\<close>; alone, the descriptor gives a layout of that many
  bytes.
\<close>

theorem zero_count_is_one:
  assumes "name \<noteq> []" and "list_all is_word name"
    and "zeros \<noteq> []" and "list_all (\<lambda>c. c = CHR ''0'') zeros"
  shows "parseDef (m, totalBytes) (type_name ty @ '' '' @ name @ ''['' @ zeros @ '']'') =
           Inr (m(name \<mapsto> \<lparr>def_type = ty, def_offset = totalBytes, def_length = 1\<rparr>),
                js_add totalBytes (enat (byteSize ty)))
         \<and> parseDef (m, totalBytes) (type_name ty @ '' '' @ name @ ''['' @ zeros @ '']'') =
           parseDef (m, totalBytes) (type_name ty @ '' '' @ name @ ''[1]'')
         \<and> (\<forall>t. totalBytes = enat t \<and> t + byteSize ty \<le> 2 ^ 53 \<longrightarrow>
               js_add totalBytes (enat (byteSize ty)) = enat (t + byteSize ty))
         \<and> parseDefs [type_name ty @ '' '' @ name @ ''['' @ zeros @ '']''] =
           Inr ([name \<mapsto> \<lparr>def_type = ty, def_offset = 0, def_length = 1\<rparr>],
                enat (byteSize ty))"
proof -
  let ?d = "type_name ty @ '' '' @ name @ ''['' @ zeros @ '']''"
  let ?d1 = "type_name ty @ '' '' @ name @ ''[1]''"
  have s: "''['' @ zeros @ '']'' = suffix_of zeros"
    using assms(3) by (simp add: suffix_of_def)
  have r: "rDef_exec ?d = Some (ty, name, zeros)"
    unfolding s using assms(1,2) zeros_digits [OF assms(4)] by (intro rDef_exec_complete) simp_all
  have s1: "''[1]'' = suffix_of ''1''"
    by (simp add: suffix_of_def)
  have r1: "rDef_exec ?d1 = Some (ty, name, ''1'')"
    unfolding s1 using assms(1,2) by (intro rDef_exec_complete) (simp_all add: is_digit_def)
  have l: "length_or_1 zeros = 1"
    using parseInt10_zeros [OF assms(3,4)] by (simp add: length_or_1_def)
  have b: "byteSize ty \<le> 2 ^ 53" using byteSize_le [of ty] by simp
  have p: "js_mul 1 (enat (byteSize ty)) = enat (byteSize ty)"
    using js_mul_exact [of 1 "byteSize ty"] b by (simp add: one_enat_def)
  have step: "\<And>m t. parseDef (m, t) ?d =
      Inr (m(name \<mapsto> \<lparr>def_type = ty, def_offset = t, def_length = 1\<rparr>),
           js_add t (enat (byteSize ty)))"
    using parseDef_Some [OF r] l p by simp
  have one: "parseDef (m, totalBytes) ?d = parseDef (m, totalBytes) ?d1"
    using parseDef_Some [OF r, of m totalBytes] parseDef_Some [OF r1, of m totalBytes] l
    by (simp only: length_or_1_one)
  have exact: "\<forall>t. totalBytes = enat t \<and> t + byteSize ty \<le> 2 ^ 53 \<longrightarrow>
      js_add totalBytes (enat (byteSize ty)) = enat (t + byteSize ty)"
    by (auto simp: round_double_exact)
  have z: "js_add 0 (enat (byteSize ty)) = enat (byteSize ty)"
    using js_add_exact [of 0 "byteSize ty"] b by (simp add: zero_enat_def)
  have alone: "parseDefs [?d] =
      Inr ([name \<mapsto> \<lparr>def_type = ty, def_offset = 0, def_length = 1\<rparr>], enat (byteSize ty))"
    by (simp only: step parseDefs_def parseDefs_loop.simps z) simp
  from step [of m totalBytes] one exact alone show ?thesis by blast
qed

theorem zero_count_is_one_witness:
  "parseDefs [''uint8 x[0]''] = Inr ([''x'' \<mapsto> \<lparr>def_type = UInt8, def_offset = 0, def_length = 1\<rparr>], 1)"
  using zero_count_is_one [of "''x''" "''0''" Map.empty 0 UInt8]
  by (simp add: is_word_def one_enat_def)

subsection \<open>Malformed descriptors\<close>

lemma parseDefs_loop_first_bad:
  "list_all conforms pre \<Longrightarrow> \<not> conforms bad \<Longrightarrow>
   parseDefs_loop st (pre @ bad # post) = Inl (Error (''Invalid Struct Definition: '' @ bad))"
proof (induction pre arbitrary: st)
  case Nil
  then have "rDef_exec bad = None" using conforms_iff [of bad] by blast
  then show ?case by (simp add: parseDef_None)
next
  case (Cons d pre)
  then have "rDef_exec d \<noteq> None" using conforms_iff [of d] by simp
  then obtain ty name c where "rDef_exec d = Some (ty, name, c)"
    by (cases "rDef_exec d") auto
  then have "\<exists>st'. parseDef st d = Inr st'"
    using parseDef_Some [of d ty name c "fst st" "snd st"] by simp
  then obtain st' where "parseDef st d = Inr st'" ..
  with Cons show ?case by simp
qed

text \<open>
  C6: a descriptor sequence with a string outside the grammar makes the constructor
  throw the error that carries the first such string; no instance is returned.
\<close>

theorem malformed_descriptor_rejected:
  assumes "d \<in> set defs" and "\<not> conforms d"
  shows "\<exists>pre bad post.
           defs = pre @ bad # post \<and> list_all conforms pre \<and> \<not> conforms bad \<and>
           parseDefs defs = Inl (Error (''Invalid Struct Definition: '' @ bad)) \<and>
           Struct defs buf isLittleEndian = Inl (Error (''Invalid Struct Definition: '' @ bad))"
proof -
  from assms have "\<exists>x\<in>set defs. \<not> conforms x" by blast
  then obtain pre bad post where s: "defs = pre @ bad # post" and b: "\<not> conforms bad"
    and p: "\<forall>y\<in>set pre. \<not> \<not> conforms y"
    by (rule split_list_first_propE)
  from p have pre: "list_all conforms pre" by (simp add: list_all_iff)
  have e: "parseDefs defs = Inl (Error (''Invalid Struct Definition: '' @ bad))"
    unfolding parseDefs_def s using pre b by (rule parseDefs_loop_first_bad)
  then have "Struct defs buf isLittleEndian = Inl (Error (''Invalid Struct Definition: '' @ bad))"
    by (simp add: Struct_def)
  with s pre b e show ?thesis by blast
qed

theorem malformed_descriptor_rejected_witness:
  "\<not> conforms ''int24 weird'' \<and>
   Struct [''uint16 packetId'', ''int24 weird'', ''uint8 x''] None None =
     Inl (Error ''Invalid Struct Definition: int24 weird'')"
proof -
  have n: "\<not> conforms ''int24 weird''"
    by (simp add: conforms_iff rDef_exec_def strip_prefix_def)
  have c: "conforms ''uint16 packetId''"
    by (simp add: conforms_iff rDef_exec_def strip_prefix_def match_count_def is_word_def)
  have m: "''int24 weird'' \<in> set [''uint16 packetId'', ''int24 weird'', ''uint8 x'']" by simp
  from malformed_descriptor_rejected [OF m n, of None None]
  obtain pre bad post where s: "[''uint16 packetId'', ''int24 weird'', ''uint8 x''] = pre @ bad # post"
    and p: "list_all conforms pre" and b: "\<not> conforms bad"
    and r: "Struct [''uint16 packetId'', ''int24 weird'', ''uint8 x''] None None =
              Inl (Error (''Invalid Struct Definition: '' @ bad))"
    by blast
  have "bad = ''int24 weird''"
  proof (cases pre)
    case Nil
    with s b c show ?thesis by simp
  next
    case (Cons x pre')
    with s have x: "pre' @ bad # post = [''int24 weird'', ''uint8 x'']" by simp
    show ?thesis
    proof (cases pre')
      case Nil
      with x show ?thesis by simp
    next
      case (Cons y pre'')
      with x p \<open>pre = x # pre'\<close> n show ?thesis by simp
    qed
  qed
  with r n show ?thesis by simp
qed

subsection \<open>The layout in exact arithmetic\<close>

lemma footprint_pos: "rDef_exec d \<noteq> None \<Longrightarrow> 0 < footprint d"
  by (auto simp: footprint_def count_of_pos byteSize_pos)

lemma desc_entry_simps [simp]:
  "def_offset (desc_entry off d) = enat off"
  "def_footprint (desc_entry off d) = enat (footprint d)"
  by (simp_all add: desc_entry_def footprint_def def_footprint_def zero_enat_def
      split: option.splits)

lemma desc_entry_length_pos: "rDef_exec d \<noteq> None \<Longrightarrow> 0 < def_length (desc_entry off d)"
  by (auto simp: desc_entry_def count_of_pos zero_enat_def)

lemma offset_at_Suc:
  "i < length defs \<Longrightarrow> offset_at defs (Suc i) = offset_at defs i + footprint (defs ! i)"
  by (simp add: offset_at_def take_Suc_conv_app_nth)

lemma offset_at_mono: "i \<le> j \<Longrightarrow> offset_at defs i \<le> offset_at defs j"
proof -
  assume "i \<le> j"
  then have "take j defs = take i defs @ take (j - i) (drop i defs)"
    by (metis le_add_diff_inverse take_add)
  then show ?thesis by (simp add: offset_at_def)
qed

lemma offset_at_step_le:
  assumes "i < j" "j < length defs"
  shows "offset_at defs i + footprint (defs ! i) \<le> offset_at defs j"
proof -
  have "offset_at defs (Suc i) \<le> offset_at defs j"
    using assms(1) by (intro offset_at_mono) simp
  then show ?thesis using assms by (simp add: offset_at_Suc)
qed

lemma offset_at_all: "offset_at defs (length defs) = sum_list (map footprint defs)"
  by (simp add: offset_at_def)

lemma offset_at_le_all: "offset_at defs i \<le> sum_list (map footprint defs)"
proof (cases "i \<le> length defs")
  case True
  then show ?thesis using offset_at_mono [of i "length defs" defs] by (simp add: offset_at_all)
next
  case False
  then show ?thesis by (simp add: offset_at_def)
qed

lemma offset_at_append: "i \<le> length xs \<Longrightarrow> offset_at (xs @ ys) i = offset_at xs i"
  by (simp add: offset_at_def)

lemma layout_map_snoc:
  "layout_map m t (ds @ [d]) =
     (layout_map m t ds)(desc_name d \<mapsto> desc_entry (t + offset_at ds (length ds)) d)"
  by (induction ds arbitrary: m t) (simp_all add: offset_at_def add.assoc)

lemma layout_map_entries:
  "layout_map m0 t0 ds n = Some e \<Longrightarrow>
   m0 n = Some e \<or>
   (\<exists>i<length ds. n = desc_name (ds ! i) \<and> e = desc_entry (t0 + offset_at ds i) (ds ! i))"
proof (induction ds arbitrary: e rule: rev_induct)
  case Nil
  then show ?case by simp
next
  case (snoc d ds)
  show ?case
  proof (cases "n = desc_name d")
    case True
    with snoc.prems have "e = desc_entry (t0 + offset_at (ds @ [d]) (length ds)) ((ds @ [d]) ! length ds)"
      by (simp add: layout_map_snoc offset_at_append)
    with True have "\<exists>i<length (ds @ [d]). n = desc_name ((ds @ [d]) ! i) \<and>
                       e = desc_entry (t0 + offset_at (ds @ [d]) i) ((ds @ [d]) ! i)"
      by (intro exI [of _ "length ds"]) simp
    then show ?thesis ..
  next
    case False
    with snoc.prems have "layout_map m0 t0 ds n = Some e" by (simp add: layout_map_snoc)
    from snoc.IH [OF this] show ?thesis
    proof
      assume "m0 n = Some e" then show ?thesis ..
    next
      assume "\<exists>i<length ds. n = desc_name (ds ! i) \<and> e = desc_entry (t0 + offset_at ds i) (ds ! i)"
      then obtain i where "i < length ds" "n = desc_name (ds ! i)"
        "e = desc_entry (t0 + offset_at ds i) (ds ! i)" by blast
      then have "i < length (ds @ [d]) \<and> n = desc_name ((ds @ [d]) ! i) \<and>
                 e = desc_entry (t0 + offset_at (ds @ [d]) i) ((ds @ [d]) ! i)"
        by (simp add: nth_append offset_at_append)
      then show ?thesis by blast
    qed
  qed
qed

lemma layout_map_last_wins:
  "i < length ds \<Longrightarrow> desc_name (ds ! i) \<notin> desc_name ` set (drop (Suc i) ds) \<Longrightarrow>
   layout_map m0 t0 ds (desc_name (ds ! i)) = Some (desc_entry (t0 + offset_at ds i) (ds ! i))"
proof (induction ds rule: rev_induct)
  case Nil
  then show ?case by simp
next
  case (snoc d ds)
  show ?case
  proof (cases "i = length ds")
    case True
    then show ?thesis by (simp add: layout_map_snoc offset_at_append)
  next
    case False
    with snoc.prems(1) have i: "i < length ds" by simp
    with snoc.prems(2) have later: "desc_name (ds ! i) \<notin> desc_name ` set (drop (Suc i) ds)"
      and d: "desc_name (ds ! i) \<noteq> desc_name d"
      by (auto simp: nth_append)
    from snoc.IH [OF i later] d i show ?thesis
      by (simp add: layout_map_snoc nth_append offset_at_append)
  qed
qed

subsection \<open>The compiler computes the exact layout up to \<open>2 ^ 53\<close>\<close>

lemma parseDef_exact:
  assumes "rDef_exec d \<noteq> None" and "t + footprint d \<le> 2 ^ 53"
  shows "parseDef (m, enat t) d =
           Inr (m(desc_name d \<mapsto> desc_entry t d), enat (t + footprint d))"
proof -
  from assms(1) obtain ty name c where r: "rDef_exec d = Some (ty, name, c)"
    by (cases "rDef_exec d") auto
  have f: "footprint d = count_of c * byteSize ty" by (simp add: footprint_def r)
  have "count_of c \<le> count_of c * byteSize ty"
    using byteSize_pos [of ty] by (cases "byteSize ty") simp_all
  with assms(2) f have c: "count_of c \<le> 2 ^ 53" and p: "count_of c * byteSize ty \<le> 2 ^ 53"
    by linarith+
  have l: "length_or_1 c = enat (count_of c)" using c by (rule length_or_1_exact)
  have "js_add (enat t) (js_mul (enat (count_of c)) (enat (byteSize ty))) =
        enat (t + count_of c * byteSize ty)"
    using p assms(2) f by (simp add: round_double_exact)
  with parseDef_Some [OF r, of m "enat t"] l show ?thesis
    by (simp add: desc_name_def desc_entry_def r f)
qed

lemma parseDefs_loop_exact:
  "list_all conforms ds \<Longrightarrow> t0 + sum_list (map footprint ds) \<le> 2 ^ 53 \<Longrightarrow>
   parseDefs_loop (m0, enat t0) ds =
     Inr (layout_map m0 t0 ds, enat (t0 + sum_list (map footprint ds)))"
proof (induction ds arbitrary: m0 t0)
  case Nil
  then show ?case by simp
next
  case (Cons d ds)
  from Cons.prems(1) have "conforms d" and rest: "list_all conforms ds" by simp_all
  then have r: "rDef_exec d \<noteq> None" using conforms_iff [of d] by blast
  from Cons.prems(2) have b: "t0 + footprint d \<le> 2 ^ 53"
    and b': "(t0 + footprint d) + sum_list (map footprint ds) \<le> 2 ^ 53" by simp_all
  let ?m1 = "m0(desc_name d \<mapsto> desc_entry t0 d)"
  have "parseDefs_loop (m0, enat t0) (d # ds) = parseDefs_loop (?m1, enat (t0 + footprint d)) ds"
    by (simp add: parseDef_exact [OF r b])
  also have "\<dots> = Inr (layout_map ?m1 (t0 + footprint d) ds,
                      enat ((t0 + footprint d) + sum_list (map footprint ds)))"
    using rest b' by (rule Cons.IH)
  finally show ?case by (simp add: add.assoc)
qed

text \<open>Conversely, a total below \<open>2 ^ 53\<close> was computed without rounding.\<close>

lemma parseDef_small:
  assumes "parseDef (m, T0) d = Inr (m1, enat t1)" and "t1 < 2 ^ 53"
  shows "\<exists>t0. T0 = enat t0 \<and> t1 = t0 + footprint d \<and>
              m1 = m(desc_name d \<mapsto> desc_entry t0 d) \<and> rDef_exec d \<noteq> None"
proof -
  from assms(1) obtain ty name c where r: "rDef_exec d = Some (ty, name, c)"
    by (cases "rDef_exec d") (auto simp: parseDef_None)
  from assms(1) parseDef_Some [OF r, of m T0]
  have m1: "m1 = m(name \<mapsto> \<lparr>def_type = ty, def_offset = T0, def_length = length_or_1 c\<rparr>)"
    and s: "js_add T0 (js_mul (length_or_1 c) (enat (byteSize ty))) = enat t1"
    by simp_all
  from js_add_small [OF s assms(2)] obtain t0 p where T0: "T0 = enat t0"
    and p: "js_mul (length_or_1 c) (enat (byteSize ty)) = enat p" and t: "t0 + p = t1"
    by blast
  from t assms(2) have "p < 2 ^ 53" by simp
  from js_mul_small [OF p this] obtain l where l: "length_or_1 c = enat l"
    and lp: "l * byteSize ty = p" by auto
  have "l \<le> l * byteSize ty"
    using byteSize_pos [of ty] by (cases "byteSize ty") simp_all
  with lp \<open>p < 2 ^ 53\<close> have "l < 2 ^ 53" by linarith
  from length_or_1_small [OF l this] have c: "count_of c = l" .
  have "footprint d = p" using c lp by (simp add: footprint_def r)
  moreover have "m1 = m(desc_name d \<mapsto> desc_entry t0 d)"
    using m1 T0 l c by (simp add: desc_name_def desc_entry_def r)
  ultimately show ?thesis using T0 t r by simp
qed

lemma parseDefs_loop_small:
  "parseDefs_loop (m0, T0) ds = Inr (m, enat t) \<Longrightarrow> t < 2 ^ 53 \<Longrightarrow>
   \<exists>t0. T0 = enat t0 \<and> t = t0 + sum_list (map footprint ds) \<and>
        m = layout_map m0 t0 ds \<and> list_all conforms ds"
proof (induction ds arbitrary: m0 T0)
  case Nil
  then show ?case by simp
next
  case (Cons d ds)
  from Cons.prems(1) obtain m1 T1 where s: "parseDef (m0, T0) d = Inr (m1, T1)"
    and l: "parseDefs_loop (m1, T1) ds = Inr (m, enat t)"
    by (auto split: sum.splits)
  from Cons.IH [OF l Cons.prems(2)] obtain t1 where T1: "T1 = enat t1"
    and t: "t = t1 + sum_list (map footprint ds)" and m: "m = layout_map m1 t1 ds"
    and c: "list_all conforms ds" by blast
  from t Cons.prems(2) have "t1 < 2 ^ 53" by simp
  from parseDef_small [OF s [unfolded T1] this] obtain t0 where a: "T0 = enat t0"
    "t1 = t0 + footprint d" "m1 = m0(desc_name d \<mapsto> desc_entry t0 d)"
    and r: "rDef_exec d \<noteq> None"
    by blast
  from r have "conforms d" using conforms_iff [of d] by blast
  with a t m c show ?case by simp
qed

text \<open>
  Every entry of a layout whose total is below \<open>2 ^ 53\<close> is at least one unit long and
  ends within the total.
\<close>

lemma parseDefs_within:
  assumes "parseDefs defs = Inr (m, enat t)" and "t < 2 ^ 53" and "m n = Some e"
  shows "def_offset e + def_footprint e \<le> enat t \<and> 0 < def_length e"
proof -
  from assms(1) have l: "parseDefs_loop (Map.empty, enat 0) defs = Inr (m, enat t)"
    by (simp add: parseDefs_def zero_enat_def)
  from parseDefs_loop_small [OF l assms(2)] have t: "t = sum_list (map footprint defs)"
    and m: "m = layout_map Map.empty 0 defs" and c: "list_all conforms defs" by simp_all
  from layout_map_entries [of Map.empty 0 defs n e] assms(3) m obtain i where i: "i < length defs"
    and e: "e = desc_entry (offset_at defs i) (defs ! i)" by auto
  have "offset_at defs (Suc i) \<le> sum_list (map footprint defs)"
    by (rule offset_at_le_all)
  then have "def_offset e + def_footprint e \<le> enat t"
    using i e t by (simp add: offset_at_Suc)
  moreover have "conforms (defs ! i)" using c i by (simp add: list_all_length)
  then have "rDef_exec (defs ! i) \<noteq> None" using conforms_iff [of "defs ! i"] by blast
  then have "0 < def_length e" unfolding e by (rule desc_entry_length_pos)
  ultimately show ?thesis ..
qed

lemmas compile_defs =
  parseDefs_def parseDef_def rDef_exec_def strip_prefix_def match_count_def is_word_def
  is_digit_def parseInt10_def digits_value_def digit_val_def length_or_1_def
  zero_enat_def one_enat_def numeral_eq_enat round_double_exact Let_def
  numeral_2_eq_2 [symmetric]

lemma parseDefs_exact:
  assumes "list_all conforms defs" and "sum_list (map footprint defs) \<le> 2 ^ 53"
  shows "parseDefs defs =
           Inr (layout_map Map.empty 0 defs, enat (sum_list (map footprint defs)))"
  using parseDefs_loop_exact [OF assms(1), of 0 Map.empty] assms(2)
  by (simp add: parseDefs_def zero_enat_def)

lemma parseDefs_prefix:
  assumes "list_all conforms defs" and "sum_list (map footprint defs) \<le> 2 ^ 53"
    and "i < length defs"
  shows "\<exists>m_i. parseDefs (take (Suc i) defs) =
                 Inr (m_i, enat (offset_at defs i + footprint (defs ! i))) \<and>
               m_i (desc_name (defs ! i)) = Some (desc_entry (offset_at defs i) (defs ! i))"
proof -
  let ?pre = "take (Suc i) defs"
  have c: "list_all conforms ?pre"
    using assms(1) by (auto simp: list_all_iff dest: in_set_takeD)
  have s: "sum_list (map footprint ?pre) = offset_at defs i + footprint (defs ! i)"
    using assms(3) offset_at_Suc [of i defs] by (simp add: offset_at_def)
  have "offset_at defs (Suc i) \<le> sum_list (map footprint defs)" by (rule offset_at_le_all)
  with assms(2,3) have b: "sum_list (map footprint ?pre) \<le> 2 ^ 53"
    unfolding s by (simp add: offset_at_Suc)
  have p: "parseDefs ?pre = Inr (layout_map Map.empty 0 ?pre, enat (sum_list (map footprint ?pre)))"
    using c b by (rule parseDefs_exact)
  have "?pre = take i defs @ [defs ! i]"
    using assms(3) by (simp add: take_Suc_conv_app_nth)
  then have "layout_map Map.empty 0 ?pre =
             (layout_map Map.empty 0 (take i defs))
               (desc_name (defs ! i) \<mapsto>
                  desc_entry (0 + offset_at (take i defs) (length (take i defs))) (defs ! i))"
    by (simp only: layout_map_snoc)
  moreover have "offset_at (take i defs) (length (take i defs)) = offset_at defs i"
    using assms(3) by (simp add: offset_at_def)
  ultimately have "layout_map Map.empty 0 ?pre (desc_name (defs ! i)) =
                   Some (desc_entry (offset_at defs i) (defs ! i))"
    by simp
  with p s show ?thesis by simp
qed

text \<open>
  C1, as amended: a sequence of descriptors that conform to the grammar and whose
  footprints sum to at most \<open>2 ^ 53\<close> compiles, and the compiler's numbers are the exact
  ones. It gives the \<open>i\<close>-th descriptor the offset \<open>offset_at defs i\<close>, the sum of the
  footprints of the descriptors before it, where the footprint is the length times the
  byte size of a unit of the entry itself, and it returns the sum of all footprints.
  The entry is in the map right after its descriptor was processed, and in the returned
  map unless a later descriptor has the same name; every entry of the returned map
  comes from a descriptor. Each footprint is positive, each offset plus footprint is
  the next offset and at most every later one, and entries of different names do not
  overlap.
\<close>

theorem offsets_are_running_totals:
  assumes "list_all conforms defs" and "sum_list (map footprint defs) \<le> 2 ^ 53"
  shows "\<exists>m.
         parseDefs defs = Inr (m, enat (sum_list (map footprint defs)))
       \<and> (\<forall>i<length defs. \<exists>m_i.
             parseDefs (take (Suc i) defs) =
               Inr (m_i, enat (offset_at defs i + footprint (defs ! i))) \<and>
             m_i (desc_name (defs ! i)) = Some (desc_entry (offset_at defs i) (defs ! i)))
       \<and> (\<forall>i<length defs.
             def_offset (desc_entry (offset_at defs i) (defs ! i)) = enat (offset_at defs i) \<and>
             def_footprint (desc_entry (offset_at defs i) (defs ! i)) =
               enat (footprint (defs ! i)))
       \<and> (\<forall>i<length defs. desc_name (defs ! i) \<notin> desc_name ` set (drop (Suc i) defs) \<longrightarrow>
             m (desc_name (defs ! i)) = Some (desc_entry (offset_at defs i) (defs ! i)))
       \<and> (\<forall>n e. m n = Some e \<longrightarrow>
             (\<exists>i<length defs. n = desc_name (defs ! i) \<and>
                               e = desc_entry (offset_at defs i) (defs ! i)))
       \<and> (\<forall>i<length defs. 0 < footprint (defs ! i))
       \<and> (\<forall>i j. i < j \<and> j < length defs \<longrightarrow>
             offset_at defs i + footprint (defs ! i) \<le> offset_at defs j)
       \<and> (\<forall>i. Suc i < length defs \<longrightarrow>
             offset_at defs i + footprint (defs ! i) = offset_at defs (Suc i))
       \<and> (\<forall>n n' e e'. m n = Some e \<and> m n' = Some e' \<and> n \<noteq> n' \<longrightarrow>
             def_offset e + def_footprint e \<le> def_offset e' \<or>
             def_offset e' + def_footprint e' \<le> def_offset e)"
proof -
  let ?m = "layout_map Map.empty 0 defs"
  have total: "parseDefs defs = Inr (?m, enat (sum_list (map footprint defs)))"
    using assms by (rule parseDefs_exact)
  have prefix: "\<forall>i<length defs. \<exists>m_i.
      parseDefs (take (Suc i) defs) = Inr (m_i, enat (offset_at defs i + footprint (defs ! i))) \<and>
      m_i (desc_name (defs ! i)) = Some (desc_entry (offset_at defs i) (defs ! i))"
    using parseDefs_prefix [OF assms] by blast
  have own: "\<forall>i<length defs.
      def_offset (desc_entry (offset_at defs i) (defs ! i)) = enat (offset_at defs i) \<and>
      def_footprint (desc_entry (offset_at defs i) (defs ! i)) = enat (footprint (defs ! i))"
    by simp
  have final: "\<forall>i<length defs. desc_name (defs ! i) \<notin> desc_name ` set (drop (Suc i) defs) \<longrightarrow>
      ?m (desc_name (defs ! i)) = Some (desc_entry (offset_at defs i) (defs ! i))"
    using layout_map_last_wins [of _ defs Map.empty 0] by simp
  have from_desc: "\<exists>i<length defs. n = desc_name (defs ! i) \<and>
      e = desc_entry (offset_at defs i) (defs ! i)" if "?m n = Some e" for n e
    using layout_map_entries [OF that] by simp
  have pos: "\<forall>i<length defs. 0 < footprint (defs ! i)"
  proof (intro allI impI)
    fix i assume "i < length defs"
    with assms(1) have "conforms (defs ! i)" by (simp add: list_all_length)
    then have "rDef_exec (defs ! i) \<noteq> None" using conforms_iff [of "defs ! i"] by blast
    then show "0 < footprint (defs ! i)" by (rule footprint_pos)
  qed
  have mono: "\<forall>i j. i < j \<and> j < length defs \<longrightarrow>
      offset_at defs i + footprint (defs ! i) \<le> offset_at defs j"
    by (simp add: offset_at_step_le)
  have next_eq: "\<forall>i. Suc i < length defs \<longrightarrow>
      offset_at defs i + footprint (defs ! i) = offset_at defs (Suc i)"
    by (simp add: offset_at_Suc)
  have apart: "def_offset e + def_footprint e \<le> def_offset e' \<or>
      def_offset e' + def_footprint e' \<le> def_offset e"
    if "?m n = Some e" "?m n' = Some e'" "n \<noteq> n'" for n n' e e'
  proof -
    from from_desc [OF that(1)] obtain i where i: "i < length defs" "n = desc_name (defs ! i)"
      "e = desc_entry (offset_at defs i) (defs ! i)" by blast
    from from_desc [OF that(2)] obtain j where j: "j < length defs" "n' = desc_name (defs ! j)"
      "e' = desc_entry (offset_at defs j) (defs ! j)" by blast
    from that(3) i(2) j(2) have "i \<noteq> j" by auto
    then consider "i < j" | "j < i" by linarith
    then show ?thesis
    proof cases
      case 1
      then show ?thesis using offset_at_step_le [OF 1 j(1)] i(3) j(3) by simp
    next
      case 2
      then show ?thesis using offset_at_step_le [OF 2 i(1)] i(3) j(3) by simp
    qed
  qed
  from total prefix own final from_desc pos mono next_eq apart show ?thesis by blast
qed

theorem offsets_are_running_totals_witness:
  "\<exists>m. parseDefs [''uint16 packetId'', ''uint32 statusCode'', ''cstring method[11]'',
                   ''uint8 bodyType'', ''uint32 bodyLength''] = Inr (m, 22)
     \<and> sum_list (map footprint [''uint16 packetId'', ''uint32 statusCode'',
                   ''cstring method[11]'', ''uint8 bodyType'', ''uint32 bodyLength'']) = 22
     \<and> m ''method'' = Some \<lparr>def_type = CString, def_offset = 6, def_length = 11\<rparr>
     \<and> m ''bodyLength'' = Some \<lparr>def_type = UInt32, def_offset = 18, def_length = 1\<rparr>"
proof -
  let ?defs = "[''uint16 packetId'', ''uint32 statusCode'', ''cstring method[11]'',
                ''uint8 bodyType'', ''uint32 bodyLength'']"
  let ?m = "[''packetId'' \<mapsto> \<lparr>def_type = UInt16, def_offset = 0, def_length = 1\<rparr>,
             ''statusCode'' \<mapsto> \<lparr>def_type = UInt32, def_offset = 2, def_length = 1\<rparr>,
             ''method'' \<mapsto> \<lparr>def_type = CString, def_offset = 6, def_length = 11\<rparr>,
             ''bodyType'' \<mapsto> \<lparr>def_type = UInt8, def_offset = 17, def_length = 1\<rparr>,
             ''bodyLength'' \<mapsto> \<lparr>def_type = UInt32, def_offset = 18, def_length = 1\<rparr>]"
  have p: "parseDefs ?defs = Inr (?m, 22)"
    by (simp add: compile_defs)
  have c: "list_all conforms ?defs"
    by (simp add: conforms_iff rDef_exec_def strip_prefix_def match_count_def is_word_def
        is_digit_def)
  have f: "sum_list (map footprint ?defs) = 22"
    by (simp add: footprint_def count_of_def rDef_exec_def strip_prefix_def match_count_def
        is_word_def is_digit_def digits_value_def digit_val_def)
  then have b: "sum_list (map footprint ?defs) \<le> 2 ^ 53" by simp
  from offsets_are_running_totals [OF c b] obtain m where
    "parseDefs ?defs = Inr (m, enat (sum_list (map footprint ?defs)))" by blast
  with p f show ?thesis by (intro exI [of _ ?m]) simp
qed

lemma round_double_first_gap: "round_double 9007199254740993 = enat 9007199254740992"
proof -
  have "ulp_exp 9007199254740993 = Suc (ulp_exp 4503599627370496)"
    by (subst ulp_exp_big) simp_all
  then have e: "ulp_exp 9007199254740993 = Suc 0"
    by (simp add: ulp_exp_small)
  show ?thesis
    unfolding round_double_def e by (simp add: Let_def)
qed

text \<open>
  C1 as stated, for every valid descriptor sequence, does not hold: the compiler's
  totals are doubles. In \<^verbatim>\<open>['uint8 a', 'uint8 x[9007199254740992]', 'uint8 z']\<close> every
  descriptor conforms to the grammar, the footprints are 1, \<open>2 ^ 53\<close> and 1, and the
  running total after \<^verbatim>\<open>x\<close> is \<open>2 ^ 53 + 1\<close>, which rounds to \<open>2 ^ 53\<close>. So \<^verbatim>\<open>z\<close> gets the
  offset \<open>2 ^ 53\<close>, not the sum \<open>2 ^ 53 + 1\<close> of the footprints before it, its byte lies
  inside the range of \<^verbatim>\<open>x\<close>, and the returned total is \<open>2 ^ 53\<close>, not the sum
  \<open>2 ^ 53 + 2\<close> of the footprints. The constructor returns an instance with this
  layout when the caller passes the buffer.
\<close>

theorem offsets_counterexample:
  "list_all conforms [''uint8 a'', ''uint8 x[9007199254740992]'', ''uint8 z'']
   \<and> parseDefs [''uint8 a'', ''uint8 x[9007199254740992]'', ''uint8 z''] =
       Inr ([''a'' \<mapsto> \<lparr>def_type = UInt8, def_offset = 0, def_length = 1\<rparr>,
             ''x'' \<mapsto> \<lparr>def_type = UInt8, def_offset = 1, def_length = 9007199254740992\<rparr>,
             ''z'' \<mapsto> \<lparr>def_type = UInt8, def_offset = 9007199254740992, def_length = 1\<rparr>],
            9007199254740992)
   \<and> Struct [''uint8 a'', ''uint8 x[9007199254740992]'', ''uint8 z''] (Some [0]) None =
       Inr \<lparr>defMap =
              [''a'' \<mapsto> \<lparr>def_type = UInt8, def_offset = 0, def_length = 1\<rparr>,
               ''x'' \<mapsto> \<lparr>def_type = UInt8, def_offset = 1, def_length = 9007199254740992\<rparr>,
               ''z'' \<mapsto> \<lparr>def_type = UInt8, def_offset = 9007199254740992, def_length = 1\<rparr>],
            buffer = [0], LITTE_ENDIAN = None\<rparr>
   \<and> map footprint [''uint8 a'', ''uint8 x[9007199254740992]'', ''uint8 z''] =
       [1, 9007199254740992, 1]
   \<and> offset_at [''uint8 a'', ''uint8 x[9007199254740992]'', ''uint8 z''] 2 = 9007199254740993
   \<and> sum_list (map footprint [''uint8 a'', ''uint8 x[9007199254740992]'', ''uint8 z'']) =
       9007199254740994
   \<and> def_offset \<lparr>def_type = UInt8, def_offset = 1, def_length = 9007199254740992\<rparr> \<le>
       def_offset \<lparr>def_type = UInt8, def_offset = 9007199254740992, def_length = 1\<rparr>
   \<and> def_offset \<lparr>def_type = UInt8, def_offset = 9007199254740992, def_length = 1\<rparr> <
       def_offset \<lparr>def_type = UInt8, def_offset = 1, def_length = 9007199254740992\<rparr> +
       def_footprint \<lparr>def_type = UInt8, def_offset = 1, def_length = 9007199254740992\<rparr>"
proof -
  let ?defs = "[''uint8 a'', ''uint8 x[9007199254740992]'', ''uint8 z'']"
  have c: "list_all conforms ?defs"
    by (simp add: conforms_iff rDef_exec_def strip_prefix_def match_count_def is_word_def
        is_digit_def)
  have f: "map footprint ?defs = [1, 9007199254740992, 1]"
    by (simp add: footprint_def count_of_def rDef_exec_def strip_prefix_def match_count_def
        is_word_def is_digit_def digits_value_def digit_val_def)
  have p: "parseDefs ?defs =
       Inr ([''a'' \<mapsto> \<lparr>def_type = UInt8, def_offset = 0, def_length = 1\<rparr>,
             ''x'' \<mapsto> \<lparr>def_type = UInt8, def_offset = 1, def_length = 9007199254740992\<rparr>,
             ''z'' \<mapsto> \<lparr>def_type = UInt8, def_offset = 9007199254740992, def_length = 1\<rparr>],
            9007199254740992)"
    by (simp add: compile_defs round_double_first_gap)
  have o: "offset_at ?defs 2 = 9007199254740993"
    using f unfolding offset_at_def by (simp add: numeral_2_eq_2)
  have v: "def_offset \<lparr>def_type = UInt8, def_offset = 1, def_length = 9007199254740992\<rparr> \<le>
       def_offset \<lparr>def_type = UInt8, def_offset = 9007199254740992, def_length = 1\<rparr>
   \<and> def_offset \<lparr>def_type = UInt8, def_offset = 9007199254740992, def_length = 1\<rparr> <
       def_offset \<lparr>def_type = UInt8, def_offset = 1, def_length = 9007199254740992\<rparr> +
       def_footprint \<lparr>def_type = UInt8, def_offset = 1, def_length = 9007199254740992\<rparr>"
    by (simp add: def_footprint_def one_enat_def numeral_eq_enat)
  have i: "Struct ?defs (Some [0]) None =
       Inr \<lparr>defMap =
              [''a'' \<mapsto> \<lparr>def_type = UInt8, def_offset = 0, def_length = 1\<rparr>,
               ''x'' \<mapsto> \<lparr>def_type = UInt8, def_offset = 1, def_length = 9007199254740992\<rparr>,
               ''z'' \<mapsto> \<lparr>def_type = UInt8, def_offset = 9007199254740992, def_length = 1\<rparr>],
            buffer = [0], LITTE_ENDIAN = None\<rparr>"
    by (simp add: Struct_def p)
  from c f p i o v show ?thesis by simp
qed

subsection \<open>The length of an instance\<close>

text \<open>
  C8, as amended: \<open>getLength\<close> is the length of the backing buffer. That is the total
  of the layout when the constructor allocated the buffer, and the length of the
  caller's buffer, whatever the layout, when one was passed. \<open>getLength\<close> is a total
  function: it has no failing case.
\<close>

theorem getLength_is_buffer_length:
  assumes "Struct defs buf isLittleEndian = Inr s"
    and "parseDefs defs = Inr (m, totalBytes)"
  shows "enat (getLength s) = (case buf of None \<Rightarrow> totalBytes | Some b \<Rightarrow> enat (length b))"
  using assms
  by (auto simp: Struct_def getLength_def split: option.splits if_splits enat.splits)

theorem getLength_is_buffer_length_witness:
  "Struct [''uint16 a'', ''uint8 b''] None None =
     Inr \<lparr>defMap = [''a'' \<mapsto> \<lparr>def_type = UInt16, def_offset = 0, def_length = 1\<rparr>,
                     ''b'' \<mapsto> \<lparr>def_type = UInt8, def_offset = 2, def_length = 1\<rparr>],
          buffer = [0, 0, 0], LITTE_ENDIAN = None\<rparr>
   \<and> getLength \<lparr>defMap = [''a'' \<mapsto> \<lparr>def_type = UInt16, def_offset = 0, def_length = 1\<rparr>,
                     ''b'' \<mapsto> \<lparr>def_type = UInt8, def_offset = 2, def_length = 1\<rparr>],
          buffer = [0, 0, 0], LITTE_ENDIAN = None\<rparr> = 3"
proof -
  let ?m = "[''a'' \<mapsto> \<lparr>def_type = UInt16, def_offset = 0, def_length = 1\<rparr>,
             ''b'' \<mapsto> \<lparr>def_type = UInt8, def_offset = 2, def_length = 1\<rparr>]"
  have p: "parseDefs [''uint16 a'', ''uint8 b''] = Inr (?m, 3)"
    by (simp add: compile_defs)
  have r: "replicate 3 (0 :: byte) = [0, 0, 0]" by (simp add: numeral_3_eq_3)
  have c: "Struct [''uint16 a'', ''uint8 b''] None None =
             Inr \<lparr>defMap = ?m, buffer = [0, 0, 0], LITTE_ENDIAN = None\<rparr>"
    by (simp add: Struct_def p r numeral_eq_enat)
  from getLength_is_buffer_length [OF c p] c show ?thesis by (simp add: numeral_eq_enat)
qed

text \<open>
  The claim as stated fails for a buffer that the caller passed: the layout of
  \<^verbatim>\<open>['uint8 a']\<close> has one byte, and around a buffer of four bytes the length is 4.
\<close>

theorem getLength_counterexample:
  "parseDefs [''uint8 a''] =
     Inr ([''a'' \<mapsto> \<lparr>def_type = UInt8, def_offset = 0, def_length = 1\<rparr>], 1)
   \<and> Struct [''uint8 a''] (Some [0, 0, 0, 0]) None =
     Inr \<lparr>defMap = [''a'' \<mapsto> \<lparr>def_type = UInt8, def_offset = 0, def_length = 1\<rparr>],
          buffer = [0, 0, 0, 0], LITTE_ENDIAN = None\<rparr>
   \<and> getLength \<lparr>defMap = [''a'' \<mapsto> \<lparr>def_type = UInt8, def_offset = 0, def_length = 1\<rparr>],
          buffer = [0, 0, 0, 0], LITTE_ENDIAN = None\<rparr> = 4"
  by (simp add: Struct_def getLength_def compile_defs)

subsection \<open>Bytes in the buffer\<close>

lemma length_le_bytes [simp]: "length (le_bytes n v) = n"
  by (induction n arbitrary: v) simp_all

lemma le_value_le_bytes: "le_value (le_bytes n v) = v mod 256 ^ n"
proof (induction n arbitrary: v)
  case 0
  then show ?case by simp
next
  case (Suc n)
  have "uint (word_of_int v :: byte) = v mod 256"
    by (simp add: uint_word_of_int)
  then have "le_value (le_bytes (Suc n) v) = v mod 256 + 256 * ((v div 256) mod 256 ^ n)"
    by (simp add: Suc.IH)
  also have "\<dots> = v mod 256 ^ Suc n"
    by (simp add: zmod_zmult2_eq)
  finally show ?case .
qed

lemma length_store_bytes:
  "off + length bs \<le> length buf \<Longrightarrow> length (store_bytes buf off bs) = length buf"
  by (simp add: store_bytes_def)

lemma slice_store_bytes:
  "off + length bs \<le> length buf \<Longrightarrow> n = length bs \<Longrightarrow>
   take n (drop off (store_bytes buf off bs)) = bs"
  by (simp add: store_bytes_def drop_append)

lemma store_bytes_single:
  "off < length buf \<Longrightarrow> store_bytes buf off [b] = buf[off := b]"
  by (simp add: store_bytes_def upd_conv_take_nth_drop)

lemma getUint_setUint:
  assumes "off + n \<le> length buf"
  shows "\<exists>buf'. setUint n buf off v le = Inr buf' \<and> length buf' = length buf \<and>
                getUint n buf' off le = Inr (v mod 256 ^ n)"
proof -
  let ?bs = "if le then le_bytes n v else rev (le_bytes n v)"
  let ?buf' = "store_bytes buf off ?bs"
  have l: "length ?bs = n" by simp
  have s: "setUint n buf off v le = Inr ?buf'"
    using assms by (simp add: setUint_def)
  have len: "length ?buf' = length buf"
    using assms l by (simp add: length_store_bytes)
  have "take n (drop off ?buf') = ?bs"
    using assms l by (intro slice_store_bytes) simp_all
  then have "getUint n ?buf' off le = Inr (le_value (le_bytes n v))"
    using assms len by (cases le) (simp_all add: getUint_def)
  with s len show ?thesis by (simp add: le_value_le_bytes)
qed

subsection \<open>Fields inside the buffer\<close>

theorem Struct_fits:
  assumes "Struct defs buf isLittleEndian = Inr s" and "parseDefs defs = Inr (m, totalBytes)"
    and "case buf of None \<Rightarrow> True
         | Some b \<Rightarrow> totalBytes \<le> enat (length b) \<and> length b < 2 ^ 53"
    and "defMap s name = Some d"
  shows "fits s d"
proof -
  from assms(1,2) have m: "defMap s = m"
    by (auto simp: Struct_def split: option.splits if_splits enat.splits)
  from assms(1,2,3) obtain t where t: "totalBytes = enat t" "t < 2 ^ 53"
    "t \<le> length (buffer s)"
    by (cases totalBytes; cases buf) (auto simp: Struct_def split: if_splits)
  from parseDefs_within [of defs m t name d] assms(2,4) m t(1,2)
  have "def_offset d + def_footprint d \<le> enat t" and "0 < def_length d" by simp_all
  moreover have "enat t \<le> enat (length (buffer s))" using t(3) by simp
  ultimately show ?thesis unfolding fits_def by (meson order_trans)
qed

theorem Struct_fits_witness:
  "Struct [''uint16 a'', ''cstring m[3]''] None None =
     Inr \<lparr>defMap = [''a'' \<mapsto> \<lparr>def_type = UInt16, def_offset = 0, def_length = 1\<rparr>,
                     ''m'' \<mapsto> \<lparr>def_type = CString, def_offset = 2, def_length = 3\<rparr>],
          buffer = [0, 0, 0, 0, 0], LITTE_ENDIAN = None\<rparr>
   \<and> fits \<lparr>defMap = [''a'' \<mapsto> \<lparr>def_type = UInt16, def_offset = 0, def_length = 1\<rparr>,
                     ''m'' \<mapsto> \<lparr>def_type = CString, def_offset = 2, def_length = 3\<rparr>],
          buffer = [0, 0, 0, 0, 0], LITTE_ENDIAN = None\<rparr>
        \<lparr>def_type = CString, def_offset = 2, def_length = 3\<rparr>"
proof -
  let ?d = "\<lparr>def_type = CString, def_offset = 2, def_length = 3\<rparr>"
  let ?m = "[''a'' \<mapsto> \<lparr>def_type = UInt16, def_offset = 0, def_length = 1\<rparr>, ''m'' \<mapsto> ?d]"
  let ?s = "\<lparr>defMap = ?m, buffer = [0, 0, 0, 0, 0], LITTE_ENDIAN = None\<rparr>"
  have p: "parseDefs [''uint16 a'', ''cstring m[3]''] = Inr (?m, 5)"
    by (simp add: compile_defs)
  have r: "replicate 5 (0 :: byte) = [0, 0, 0, 0, 0]" by code_simp
  have c: "Struct [''uint16 a'', ''cstring m[3]''] None None = Inr ?s"
    by (simp add: Struct_def p r numeral_eq_enat)
  have b: "case None :: byte list option of None \<Rightarrow> True
           | Some b \<Rightarrow> (5 :: enat) \<le> enat (length b) \<and> length b < 2 ^ 53" by simp
  have m: "defMap ?s ''m'' = Some ?d" by simp
  from Struct_fits [OF c p b m] c show ?thesis by simp
qed

lemma fits_enat:
  assumes "fits s d"
  shows "\<exists>off c. def_offset d = enat off \<and> def_length d = enat c \<and> 0 < c \<and>
                 off + c * byteSize (def_type d) \<le> length (buffer s)"
proof -
  from assms have p: "0 < def_length d"
    and le: "def_offset d + def_length d * enat (byteSize (def_type d)) \<le>
             enat (length (buffer s))"
    by (simp_all add: fits_def def_footprint_def)
  from le obtain off where off: "def_offset d = enat off"
    by (cases "def_offset d") simp_all
  have "def_length d \<noteq> \<infinity>"
  proof
    assume "def_length d = \<infinity>"
    then have "def_length d * enat (byteSize (def_type d)) = \<infinity>"
      using byteSize_pos [of "def_type d"] by (simp add: zero_enat_def [symmetric])
    with le off show False by simp
  qed
  then obtain c where c: "def_length d = enat c" by (cases "def_length d") simp_all
  with p have "0 < c" by (simp add: zero_enat_def)
  with le off c show ?thesis by simp
qed

lemma fits_unit:
  assumes "fits s d"
  shows "\<exists>off. def_offset d = enat off \<and> off + byteSize (def_type d) \<le> length (buffer s)"
proof -
  from fits_enat [OF assms] obtain off c where off: "def_offset d = enat off" and "0 < c"
    and le: "off + c * byteSize (def_type d) \<le> length (buffer s)" by blast
  from \<open>0 < c\<close> have "off + byteSize (def_type d) \<le> off + c * byteSize (def_type d)"
    by (cases c) simp_all
  then have "off + byteSize (def_type d) \<le> length (buffer s)"
    using le by (rule order_trans)
  with off show ?thesis by blast
qed

lemma getDefByName_own:
  "defMap s name = Some d \<Longrightarrow> getDefByName s name = Inr (PDef d)"
  by (simp add: getDefByName_def defMap_get_def)

lemma set_field_own:
  "defMap s name = Some d \<Longrightarrow>
   set_field tn s name v = setter tn (def_type d) s v (def_offset d) (def_length d)"
  by (simp add: set_field_def getDefByName_own)

lemma get_field_own:
  "defMap s name = Some d \<Longrightarrow>
   get_field s name = getter (def_type d) s (def_offset d) (def_length d)"
  by (simp add: get_field_def getDefByName_own)

lemma setter_uint:
  assumes "off + n \<le> length (buffer s)"
  shows "\<exists>buf'. put s (setUint n (buffer s) off v le) = (None, s\<lparr>buffer := buf'\<rparr>) \<and>
                length buf' = length (buffer s) \<and>
                getUint n buf' off le = Inr (v mod 256 ^ n)"
  using getUint_setUint [OF assms, of v le] by (auto simp: put_def)

subsection \<open>Integer fields\<close>

text \<open>
  C2: on an integer field whose bytes lie inside the buffer, \<^verbatim>\<open>set\<close> of a value that
  the width can represent followed by \<^verbatim>\<open>get\<close> returns the value, whatever the
  endianness flag of the instance is.
\<close>

theorem integer_roundtrip:
  assumes "defMap s name = Some d" and "fits s d"
    and "def_type d = UInt8 \<or> def_type d = UInt16 \<or> def_type d = UInt32"
    and "0 \<le> v" and "v < 2 ^ (8 * byteSize (def_type d))"
  shows "\<exists>s'. set_field tn s name (Num v) = (None, s') \<and>
              get_field s' name = Inr (Num v) \<and>
              defMap s' = defMap s \<and> LITTE_ENDIAN s' = LITTE_ENDIAN s"
proof -
  let ?n = "byteSize (def_type d)"
  let ?le = "def_type d \<noteq> UInt8 \<and> littleEndian s"
  from fits_unit [OF assms(2)] obtain off where off: "def_offset d = enat off"
    and r: "off + ?n \<le> length (buffer s)" by blast
  from setter_uint [OF r, of v ?le] obtain buf' where
    p: "put s (setUint ?n (buffer s) off v ?le) = (None, s\<lparr>buffer := buf'\<rparr>)"
    and g: "getUint ?n buf' off ?le = Inr (v mod 256 ^ ?n)" by blast
  have "(256 :: int) ^ ?n = 2 ^ (8 * ?n)"
    using assms(3) by auto
  then have v: "v mod 256 ^ ?n = v" using assms(4,5) by simp
  let ?s' = "s\<lparr>buffer := buf'\<rparr>"
  have s: "set_field tn s name (Num v) = (None, ?s')"
    using assms(3) p
    by (auto simp: set_field_own [OF assms(1)] off at_offset_def ToNumber_def setUint8_def)
  have d': "defMap ?s' name = Some d" using assms(1) by simp
  have "get_field ?s' name = Inr (Num v)"
    using assms(3) g v
    by (auto simp: get_field_own [OF d'] off at_offset_def getUint8_def littleEndian_def)
  with s show ?thesis by (intro exI [of _ ?s']) simp
qed

theorem integer_roundtrip_witness:
  "Struct [''uint8 tag'', ''uint32 statusCode''] None (Some True) =
     Inr \<lparr>defMap = [''tag'' \<mapsto> \<lparr>def_type = UInt8, def_offset = 0, def_length = 1\<rparr>,
                     ''statusCode'' \<mapsto> \<lparr>def_type = UInt32, def_offset = 1, def_length = 1\<rparr>],
          buffer = [0, 0, 0, 0, 0], LITTE_ENDIAN = Some True\<rparr>
   \<and> (\<exists>s'. set_field (\<lambda>cs. 0)
               \<lparr>defMap = [''tag'' \<mapsto> \<lparr>def_type = UInt8, def_offset = 0, def_length = 1\<rparr>,
                     ''statusCode'' \<mapsto> \<lparr>def_type = UInt32, def_offset = 1, def_length = 1\<rparr>],
                buffer = [0, 0, 0, 0, 0], LITTE_ENDIAN = Some True\<rparr>
               ''statusCode'' (Num 4294967295) = (None, s')
           \<and> get_field s' ''statusCode'' = Inr (Num 4294967295))"
proof -
  let ?d = "\<lparr>def_type = UInt32, def_offset = 1, def_length = 1\<rparr>"
  let ?s = "\<lparr>defMap = [''tag'' \<mapsto> \<lparr>def_type = UInt8, def_offset = 0, def_length = 1\<rparr>,
                       ''statusCode'' \<mapsto> ?d],
            buffer = [0, 0, 0, 0, 0], LITTE_ENDIAN = Some True\<rparr>"
  have r: "replicate 5 (0 :: byte) = [0, 0, 0, 0, 0]" by (simp add: eval_nat_numeral)
  have c: "Struct [''uint8 tag'', ''uint32 statusCode''] None (Some True) = Inr ?s"
    by (simp add: Struct_def compile_defs r)
  have m: "defMap ?s ''statusCode'' = Some ?d" by simp
  have f: "fits ?s ?d"
    by (simp add: fits_def def_footprint_def zero_enat_def one_enat_def numeral_eq_enat)
  have t: "def_type ?d = UInt8 \<or> def_type ?d = UInt16 \<or> def_type ?d = UInt32" by simp
  have "(4294967295 :: int) < 2 ^ (8 * byteSize (def_type ?d))" by simp
  from integer_roundtrip [OF m f t _ this, of "\<lambda>cs. 0"] c show ?thesis by auto
qed

subsection \<open>Visiting the bytes\<close>

lemma getUint8_in_range: "i < length buf \<Longrightarrow> getUint8 buf i = Inr (uint (buf ! i))"
  by (simp add: getUint8_def getUint_def take_Suc_conv_app_nth [of 0] Cons_nth_drop_Suc [symmetric])

lemma eachByte_loop_fold:
  "len = length (buffer s) \<Longrightarrow> i \<le> len \<Longrightarrow>
   eachByte_loop s callback i len acc =
     Inr (fold (\<lambda>(j, b) a. callback (uint b) j a) (zip [i..<len] (drop i (buffer s))) acc)"
proof (induction s callback i len acc rule: eachByte_loop.induct)
  case (1 s callback i len acc)
  show ?case
  proof (cases "i < len")
    case True
    with "1.prems" have g: "getUint8 (buffer s) i = Inr (uint (buffer s ! i))"
      by (simp add: getUint8_in_range)
    have z: "zip [i..<len] (drop i (buffer s)) =
             (i, buffer s ! i) # zip [Suc i..<len] (drop (Suc i) (buffer s))"
      using True "1.prems" by (simp add: upt_conv_Cons Cons_nth_drop_Suc [symmetric])
    from "1.IH" [OF True g "1.prems"(1)] True
    have "eachByte_loop s callback (i + 1) len (callback (uint (buffer s ! i)) i acc) =
          Inr (fold (\<lambda>(j, b) a. callback (uint b) j a)
                 (zip [i + 1..<len] (drop (i + 1) (buffer s))) (callback (uint (buffer s ! i)) i acc))"
      by simp
    then show ?thesis
      using True g by (subst eachByte_loop.simps) (simp add: z)
  next
    case False
    with "1.prems" show ?thesis by (subst eachByte_loop.simps) simp
  qed
qed

lemma fold_zip_no_index:
  "length is = length bs \<Longrightarrow> fold (\<lambda>(j, b) a. g b a) (zip is bs) acc = fold g bs acc"
  by (induction "is" bs arbitrary: acc rule: list_induct2) simp_all

lemma eachByte_no_index:
  "eachByte s (\<lambda>v j a. g v a) acc = Inr (fold (\<lambda>b a. g (uint b) a) (buffer s) acc)"
proof -
  have "eachByte s (\<lambda>v j a. g v a) acc =
        Inr (fold (\<lambda>(j, b) a. g (uint b) a) (zip [0..<length (buffer s)] (buffer s)) acc)"
    unfolding eachByte_def getLength_def
    by (subst eachByte_loop_fold) simp_all
  then show ?thesis by (simp add: fold_zip_no_index [where g = "\<lambda>b a. g (uint b) a"])
qed

lemma fold_snoc_map: "fold (\<lambda>b a. a @ [f b]) bs acc = acc @ map f bs"
  by (induction bs arbitrary: acc) simp_all

lemma eachByte_collect: "eachByte s (\<lambda>v i acc. acc @ [v]) [] = Inr (map uint (buffer s))"
  by (simp add: eachByte_no_index [where g = "\<lambda>v a. a @ [v]"] fold_snoc_map)

subsection \<open>Byte order\<close>

lemma setter_multibyte_bytes:
  assumes "off + n \<le> length (buffer s)"
  shows "\<exists>buf'. put s (setUint n (buffer s) off v le) = (None, s\<lparr>buffer := buf'\<rparr>) \<and>
                take n (drop off buf') = (if le then le_bytes n v else rev (le_bytes n v)) \<and>
                getUint n buf' off le = Inr (v mod 256 ^ n)"
proof -
  let ?bs = "if le then le_bytes n v else rev (le_bytes n v)"
  let ?buf' = "store_bytes (buffer s) off ?bs"
  have t: "take n (drop off ?buf') = ?bs"
    using assms by (intro slice_store_bytes) simp_all
  have p: "put s (setUint n (buffer s) off v le) = (None, s\<lparr>buffer := ?buf'\<rparr>)"
    using assms by (simp add: put_def setUint_def)
  have "length ?buf' = length (buffer s)"
    using assms by (simp add: length_store_bytes)
  then have "getUint n ?buf' off le = Inr (le_value (le_bytes n v))"
    using assms t by (cases le) (simp_all add: getUint_def)
  then have g: "getUint n ?buf' off le = Inr (v mod 256 ^ n)"
    by (simp add: le_value_le_bytes)
  from p t g show ?thesis by blast
qed

text \<open>
  C5: one flag decides the byte order of every write to, and every read of, a two-byte
  or four-byte field. The instance holds the flag as the constructor received it; only \<^verbatim>\<open>true\<close>
  gives little-endian, so a flag that was not passed gives big-endian. After \<^verbatim>\<open>set\<close>
  the bytes of the field, as \<^verbatim>\<open>eachByte\<close> visits them, are the value's bytes in that
  order, and \<^verbatim>\<open>get\<close> reads them back in the same order; for \<open>0x01020304\<close> in a \<open>uint32\<close> field they are 4, 3, 2, 1 in little-endian
  and 1, 2, 3, 4 in big-endian.
\<close>

theorem endianness_flag_governs_byte_order:
  assumes "defMap s name = Some d" and "fits s d"
    and "def_type d = UInt16 \<or> def_type d = UInt32"
  shows "(Struct defs buf flag = Inr s0 \<longrightarrow> LITTE_ENDIAN s0 = flag)
       \<and> (\<exists>s' visited off.
             def_offset d = enat off \<and>
             set_field tn s name (Num v) = (None, s') \<and>
             LITTE_ENDIAN s' = LITTE_ENDIAN s \<and>
             get_field s' name = Inr (Num (v mod 256 ^ byteSize (def_type d))) \<and>
             eachByte s' (\<lambda>v i acc. acc @ [v]) [] = Inr visited \<and>
             take (byteSize (def_type d)) (drop off visited) =
               map uint (if LITTE_ENDIAN s = Some True
                         then le_bytes (byteSize (def_type d)) v
                         else rev (le_bytes (byteSize (def_type d)) v)) \<and>
             (def_type d = UInt32 \<and> v = 0x01020304 \<longrightarrow>
                take 4 (drop off visited) =
                  (if LITTE_ENDIAN s = Some True then [4, 3, 2, 1] else [1, 2, 3, 4])))"
proof -
  let ?n = "byteSize (def_type d)"
  have flag: "Struct defs buf flag = Inr s0 \<longrightarrow> LITTE_ENDIAN s0 = flag"
    by (auto simp: Struct_def split: sum.splits option.splits if_splits enat.splits)
  from fits_unit [OF assms(2)] obtain off where off: "def_offset d = enat off"
    and r: "off + ?n \<le> length (buffer s)" by blast
  from setter_multibyte_bytes [OF r, of v "littleEndian s"] obtain buf' where
    p: "put s (setUint ?n (buffer s) off v (littleEndian s)) = (None, s\<lparr>buffer := buf'\<rparr>)"
    and b: "take ?n (drop off buf') =
            (if littleEndian s then le_bytes ?n v else rev (le_bytes ?n v))"
    and g: "getUint ?n buf' off (littleEndian s) = Inr (v mod 256 ^ ?n)" by blast
  let ?s' = "s\<lparr>buffer := buf'\<rparr>"
  let ?visited = "map uint buf'"
  have d': "defMap ?s' name = Some d" using assms(1) by simp
  have rd: "get_field ?s' name = Inr (Num (v mod 256 ^ ?n))"
    using assms(3) g by (auto simp: get_field_own [OF d'] off at_offset_def littleEndian_def)
  have s: "set_field tn s name (Num v) = (None, ?s')"
    using assms(3) p by (auto simp: set_field_own [OF assms(1)] off at_offset_def ToNumber_def)
  have e: "eachByte ?s' (\<lambda>v i acc. acc @ [v]) [] = Inr ?visited"
    by (simp add: eachByte_collect)
  have "take ?n (drop off ?visited) = map uint (take ?n (drop off buf'))"
    by (simp add: take_map drop_map)
  then have t: "take ?n (drop off ?visited) =
           map uint (if LITTE_ENDIAN s = Some True then le_bytes ?n v else rev (le_bytes ?n v))"
    unfolding b littleEndian_def .
  have c: "def_type d = UInt32 \<and> v = 0x01020304 \<longrightarrow>
           take 4 (drop off ?visited) =
             (if LITTE_ENDIAN s = Some True then [4, 3, 2, 1] else [1, 2, 3, 4])"
  proof
    assume a: "def_type d = UInt32 \<and> v = 0x01020304"
    have "le_bytes 4 0x01020304 = [4, 3, 2, 1]"
      by code_simp
    with t a show "take 4 (drop off ?visited) =
             (if LITTE_ENDIAN s = Some True then [4, 3, 2, 1] else [1, 2, 3, 4])"
      by simp
  qed
  from flag off s rd e t c show ?thesis
    by (intro conjI exI [of _ ?s'] exI [of _ ?visited] exI [of _ off]) simp_all
qed

theorem endianness_flag_governs_byte_order_witness:
  "Struct [''uint8 tag'', ''uint32 statusCode''] None None =
     Inr \<lparr>defMap = [''tag'' \<mapsto> \<lparr>def_type = UInt8, def_offset = 0, def_length = 1\<rparr>,
                     ''statusCode'' \<mapsto> \<lparr>def_type = UInt32, def_offset = 1, def_length = 1\<rparr>],
          buffer = [0, 0, 0, 0, 0], LITTE_ENDIAN = None\<rparr>
   \<and> (\<exists>s' visited.
         set_field (\<lambda>cs. 0)
           \<lparr>defMap = [''tag'' \<mapsto> \<lparr>def_type = UInt8, def_offset = 0, def_length = 1\<rparr>,
                     ''statusCode'' \<mapsto> \<lparr>def_type = UInt32, def_offset = 1, def_length = 1\<rparr>],
            buffer = [0, 0, 0, 0, 0], LITTE_ENDIAN = None\<rparr>
           ''statusCode'' (Num 0x01020304) = (None, s')
         \<and> eachByte s' (\<lambda>v i acc. acc @ [v]) [] = Inr visited
         \<and> take 4 (drop 1 visited) = [1, 2, 3, 4])
   \<and> (\<exists>s' visited.
         set_field (\<lambda>cs. 0)
           \<lparr>defMap = [''tag'' \<mapsto> \<lparr>def_type = UInt8, def_offset = 0, def_length = 1\<rparr>,
                     ''statusCode'' \<mapsto> \<lparr>def_type = UInt32, def_offset = 1, def_length = 1\<rparr>],
            buffer = [0, 0, 0, 0, 0], LITTE_ENDIAN = Some True\<rparr>
           ''statusCode'' (Num 0x01020304) = (None, s')
         \<and> eachByte s' (\<lambda>v i acc. acc @ [v]) [] = Inr visited
         \<and> take 4 (drop 1 visited) = [4, 3, 2, 1])"
proof -
  let ?d = "\<lparr>def_type = UInt32, def_offset = 1, def_length = 1\<rparr>"
  let ?m = "[''tag'' \<mapsto> \<lparr>def_type = UInt8, def_offset = 0, def_length = 1\<rparr>,
             ''statusCode'' \<mapsto> ?d]"
  let ?be = "\<lparr>defMap = ?m, buffer = [0, 0, 0, 0, 0], LITTE_ENDIAN = None\<rparr>"
  let ?le = "\<lparr>defMap = ?m, buffer = [0, 0, 0, 0, 0], LITTE_ENDIAN = Some True\<rparr>"
  have r: "replicate 5 (0 :: byte) = [0, 0, 0, 0, 0]" by (simp add: eval_nat_numeral)
  have c: "Struct [''uint8 tag'', ''uint32 statusCode''] None None = Inr ?be"
    by (simp add: Struct_def compile_defs r)
  have t: "def_type ?d = UInt16 \<or> def_type ?d = UInt32" by simp
  have mb: "defMap ?be ''statusCode'' = Some ?d" by simp
  have fb: "fits ?be ?d" by (simp add: fits_def def_footprint_def zero_enat_def one_enat_def numeral_eq_enat)
  have ml: "defMap ?le ''statusCode'' = Some ?d" by simp
  have fl: "fits ?le ?d" by (simp add: fits_def def_footprint_def zero_enat_def one_enat_def numeral_eq_enat)
  from endianness_flag_governs_byte_order [OF mb fb t, where v = "0x01020304" and tn = "\<lambda>cs. 0"]
  have "\<exists>s' visited.
         set_field (\<lambda>cs. 0) ?be ''statusCode'' (Num 0x01020304) = (None, s')
         \<and> eachByte s' (\<lambda>v i acc. acc @ [v]) [] = Inr visited
         \<and> take 4 (drop 1 visited) = [1, 2, 3, 4]"
    by (simp add: one_enat_def) blast
  moreover
  from endianness_flag_governs_byte_order [OF ml fl t, where v = "0x01020304" and tn = "\<lambda>cs. 0"]
  have "\<exists>s' visited.
         set_field (\<lambda>cs. 0) ?le ''statusCode'' (Num 0x01020304) = (None, s')
         \<and> eachByte s' (\<lambda>v i acc. acc @ [v]) [] = Inr visited
         \<and> take 4 (drop 1 visited) = [4, 3, 2, 1]"
    by (simp add: one_enat_def) blast
  ultimately show ?thesis using c by blast
qed

subsection \<open>Text fields: writing\<close>

lemma setUint8_in_range:
  "off < length buf \<Longrightarrow> setUint8 buf off v = Inr (buf[off := word_of_int v])"
  by (simp add: setUint8_def setUint_def store_bytes_single)

lemma word_of_int_uint_ucast: "(word_of_int (uint w) :: byte) = ucast (w :: 16 word)"
  by (rule ucast_eq [symmetric])

text \<open>
  The loop from index \<open>i\<close>: when the \<open>k\<close> characters that are left fit, it writes their
  low bytes and moves the offset behind them.
\<close>

lemma setter_cstring_loop_writes:
  "len = int i + int k \<Longrightarrow> i + k \<le> length val \<Longrightarrow> off + k \<le> length buf \<Longrightarrow>
   setter_cstring_loop val len i buf off =
     (None, take off buf @ map ucast (take k (drop i val)) @ drop (off + k) buf, off + k)"
proof (induction k arbitrary: i buf off)
  case 0
  then show ?case by (subst setter_cstring_loop.simps) simp
next
  case (Suc k)
  let ?b = "ucast (val ! i) :: byte"
  let ?buf' = "buf[off := ?b]"
  have w: "setUint8 buf off (uint (val ! i)) = Inr ?buf'"
    using Suc.prems(3) by (simp add: setUint8_in_range word_of_int_uint_ucast)
  have "setter_cstring_loop val len (i + 1) ?buf' (off + 1) =
        (None, take (off + 1) ?buf' @ map ucast (take k (drop (i + 1) val)) @
               drop (off + 1 + k) ?buf', off + 1 + k)"
    using Suc.prems by (intro Suc.IH) simp_all
  moreover have "take (off + 1) ?buf' = take off buf @ [?b]"
    using Suc.prems(3) by (simp add: take_Suc_conv_app_nth)
  moreover have "drop (off + 1 + k) ?buf' = drop (off + Suc k) buf"
    by simp
  moreover have "take (Suc k) (drop i val) = val ! i # take k (drop (i + 1) val)"
    using Suc.prems(2) by (simp add: Cons_nth_drop_Suc [symmetric])
  ultimately show ?case
    using Suc.prems(1) w by (subst setter_cstring_loop.simps) simp
qed

lemma setter_cstring_Str:
  assumes "0 < c" and "off + c \<le> length (buffer s)"
    and "n = min (length val) (c - 1)"
  shows "setter_cstring s (Str val) (enat off) (enat c) =
           (None, s\<lparr>buffer := take off (buffer s) @ map ucast (take n val) @ [0] @
                                 drop (off + n + 1) (buffer s)\<rparr>)"
proof -
  let ?buf = "buffer s"
  let ?mid = "map ucast (take n val) :: byte list"
  let ?buf1 = "take off ?buf @ ?mid @ drop (off + n) ?buf"
  have len: "min (int (length val)) (int c - 1) = int 0 + int n"
    using assms(1,3) by (simp add: min_def) linarith
  have n: "0 + n \<le> length val" "off + n \<le> length ?buf" "off + n < length ?buf"
    using assms by simp_all
  have loop: "setter_cstring_loop val (min (int (length val)) (int c - 1)) 0 ?buf off =
              (None, ?buf1, off + n)"
    using setter_cstring_loop_writes [OF len n(1,2)] by simp
  have l1: "length ?buf1 = length ?buf" using n by simp
  have z: "setUint8 ?buf1 (off + n) 0 = Inr (?buf1[off + n := 0])"
    using n(3) l1 by (simp only: setUint8_in_range) simp
  have "drop (off + n) ?buf = ?buf ! (off + n) # drop (off + n + 1) ?buf"
    using n(3) by (simp add: Cons_nth_drop_Suc)
  then have u: "?buf1[off + n := 0] = take off ?buf @ ?mid @ [0] @ drop (off + n + 1) ?buf"
    using n by (simp add: list_update_append)
  show ?thesis
    unfolding setter_cstring_def using loop z u by (simp add: put_def)
qed

text \<open>
  C3: \<^verbatim>\<open>set\<close> of a string on a \<open>cstring\<close> field of capacity \<open>c\<close> whose bytes lie
  inside the buffer writes the low bytes of the first \<open>n = min |s| (c - 1)\<close> character
  codes from the field's offset on (the code itself when it is below 256), a zero
  byte right after them, which is inside the field, and nothing else: every other byte
  of the buffer, those of the field behind the terminator included, keeps its value.
  For an input of \<open>c - 1\<close> characters or more the zero byte is the last byte of the
  field.
\<close>

theorem cstring_set_writes_and_terminates:
  assumes "defMap s name = Some d" and "fits s d" and "def_type d = CString"
  shows "\<exists>s' off c n. def_offset d = enat off \<and> def_length d = enat c
       \<and> n = min (length val) (c - 1)
       \<and> set_field tn s name (Str val) = (None, s')
       \<and> buffer s' = take off (buffer s) @ map ucast (take n val) @ [0] @
                       drop (off + n + 1) (buffer s)
       \<and> length (buffer s') = length (buffer s)
       \<and> n < c
       \<and> (\<forall>j<n. buffer s' ! (off + j) = ucast (val ! j))
       \<and> (\<forall>j<n. uint (val ! j) < 256 \<longrightarrow>
                  uint (buffer s' ! (off + j)) = uint (val ! j))
       \<and> buffer s' ! (off + n) = 0
       \<and> (c - 1 \<le> length val \<longrightarrow> buffer s' ! (off + c - 1) = 0)
       \<and> (\<forall>i<length (buffer s). i < off \<or> off + n < i \<longrightarrow>
            buffer s' ! i = buffer s ! i)"
proof -
  from fits_enat [OF assms(2)] assms(3) obtain off c where off: "def_offset d = enat off"
    and c: "def_length d = enat c" and pos: "0 < c" and r: "off + c \<le> length (buffer s)"
    by auto
  define n where "n = min (length val) (c - 1)"
  let ?buf = "buffer s"
  let ?mid = "map ucast (take n val) :: byte list"
  let ?buf' = "take off ?buf @ ?mid @ [0] @ drop (off + n + 1) ?buf"
  let ?s' = "s\<lparr>buffer := ?buf'\<rparr>"
  have nl: "n < c" "n \<le> length val" using n_def pos by simp_all
  have lm: "length ?mid = n" using nl by simp
  have lt: "length (take off ?buf) = off" using r by simp
  have s: "set_field tn s name (Str val) = (None, ?s')"
    using setter_cstring_Str [OF pos r n_def] assms(3)
    by (simp add: set_field_own [OF assms(1)] off c)
  have len: "length ?buf' = length ?buf" using r nl lm by simp
  have content: "?buf' ! (off + j) = ucast (val ! j)" if "j < n" for j
    using that nl lt lm by (simp add: nth_append)
  have low: "uint (?buf' ! (off + j)) = uint (val ! j)" if "j < n" "uint (val ! j) < 256" for j
  proof -
    have "uint (ucast (val ! j) :: byte) = uint (val ! j) mod 256"
      unfolding ucast_eq uint_word_of_int by simp
    then have "uint (ucast (val ! j) :: byte) = uint (val ! j)"
      using that(2) by simp
    then show ?thesis unfolding content [OF that(1)] .
  qed
  have zero: "?buf' ! (off + n) = 0"
    using lt lm by (simp add: nth_append)
  have last: "c - 1 \<le> length val \<longrightarrow> ?buf' ! (off + c - 1) = 0"
  proof
    assume "c - 1 \<le> length val"
    then have "n = c - 1" using n_def by simp
    then have "off + c - 1 = off + n" using pos by simp
    with zero show "?buf' ! (off + c - 1) = 0" by simp
  qed
  have keep: "?buf' ! i = ?buf ! i" if "i < length ?buf" "i < off \<or> off + n < i" for i
  proof (cases "i < off")
    case True
    then show ?thesis using lt by (simp add: nth_append)
  next
    case False
    with that(2) have i: "off + n < i" by simp
    have a: "?buf' = (take off ?buf @ ?mid @ [0]) @ drop (off + n + 1) ?buf" by simp
    have l: "length (take off ?buf @ ?mid @ [0]) = off + n + 1" using lt lm by simp
    have "\<not> i < off + n + 1" using i by simp
    then have "?buf' ! i = drop (off + n + 1) ?buf ! (i - (off + n + 1))"
      by (subst a) (simp only: nth_append l if_False)
    also have "\<dots> = ?buf ! i" using i that(1) by simp
    finally show ?thesis .
  qed
  have rest: "set_field tn s name (Str val) = (None, ?s')
       \<and> buffer ?s' = take off (buffer s) @ map ucast (take n val) @ [0] @
                       drop (off + n + 1) (buffer s)
       \<and> length (buffer ?s') = length (buffer s)
       \<and> n < c
       \<and> (\<forall>j<n. buffer ?s' ! (off + j) = ucast (val ! j))
       \<and> (\<forall>j<n. uint (val ! j) < 256 \<longrightarrow>
                  uint (buffer ?s' ! (off + j)) = uint (val ! j))
       \<and> buffer ?s' ! (off + n) = 0
       \<and> (c - 1 \<le> length val \<longrightarrow> buffer ?s' ! (off + c - 1) = 0)
       \<and> (\<forall>i<length (buffer s). i < off \<or> off + n < i \<longrightarrow>
            buffer ?s' ! i = buffer s ! i)"
    using s len nl(1) content low zero last keep by simp
  with off c n_def show ?thesis by blast
qed

theorem cstring_set_writes_and_terminates_witness:
  "Struct [''uint8 t'', ''cstring m[4]'', ''uint8 u''] (Some [7, 1, 2, 3, 4, 9]) None =
     Inr \<lparr>defMap = [''t'' \<mapsto> \<lparr>def_type = UInt8, def_offset = 0, def_length = 1\<rparr>,
                     ''m'' \<mapsto> \<lparr>def_type = CString, def_offset = 1, def_length = 4\<rparr>,
                     ''u'' \<mapsto> \<lparr>def_type = UInt8, def_offset = 5, def_length = 1\<rparr>],
          buffer = [7, 1, 2, 3, 4, 9], LITTE_ENDIAN = None\<rparr>
   \<and> (\<exists>s'. set_field (\<lambda>cs. 0)
               \<lparr>defMap = [''t'' \<mapsto> \<lparr>def_type = UInt8, def_offset = 0, def_length = 1\<rparr>,
                     ''m'' \<mapsto> \<lparr>def_type = CString, def_offset = 1, def_length = 4\<rparr>,
                     ''u'' \<mapsto> \<lparr>def_type = UInt8, def_offset = 5, def_length = 1\<rparr>],
                buffer = [7, 1, 2, 3, 4, 9], LITTE_ENDIAN = None\<rparr>
               ''m'' (Str [97]) = (None, s')
           \<and> buffer s' = [7, 97, 0, 3, 4, 9])
   \<and> (\<exists>s'. set_field (\<lambda>cs. 0)
               \<lparr>defMap = [''t'' \<mapsto> \<lparr>def_type = UInt8, def_offset = 0, def_length = 1\<rparr>,
                     ''m'' \<mapsto> \<lparr>def_type = CString, def_offset = 1, def_length = 4\<rparr>,
                     ''u'' \<mapsto> \<lparr>def_type = UInt8, def_offset = 5, def_length = 1\<rparr>],
                buffer = [7, 1, 2, 3, 4, 9], LITTE_ENDIAN = None\<rparr>
               ''m'' (Str [98, 117, 121, 101, 114]) = (None, s')
           \<and> buffer s' = [7, 98, 117, 121, 0, 9])"
proof -
  let ?d = "\<lparr>def_type = CString, def_offset = 1, def_length = 4\<rparr>"
  let ?s = "\<lparr>defMap = [''t'' \<mapsto> \<lparr>def_type = UInt8, def_offset = 0, def_length = 1\<rparr>,
                       ''m'' \<mapsto> ?d,
                       ''u'' \<mapsto> \<lparr>def_type = UInt8, def_offset = 5, def_length = 1\<rparr>],
            buffer = [7, 1, 2, 3, 4, 9], LITTE_ENDIAN = None\<rparr>"
  have c: "Struct [''uint8 t'', ''cstring m[4]'', ''uint8 u''] (Some [7, 1, 2, 3, 4, 9]) None = Inr ?s"
    by (simp add: Struct_def compile_defs)
  have m: "defMap ?s ''m'' = Some ?d" by simp
  have f: "fits ?s ?d"
    by (simp add: fits_def def_footprint_def zero_enat_def one_enat_def numeral_eq_enat)
  have t: "def_type ?d = CString" by simp
  have u1: "(ucast (97 :: 16 word) :: byte) = 97" by simp
  have u3: "map ucast [98, 117, 121 :: 16 word] = [98, 117, 121 :: byte]" by simp
  from cstring_set_writes_and_terminates [OF m f t, of "[97]" "\<lambda>cs. 0"]
  have a: "\<exists>s'. set_field (\<lambda>cs. 0) ?s ''m'' (Str [97]) = (None, s') \<and>
                 buffer s' = [7, 97, 0, 3, 4, 9]"
    by (auto simp: u1 one_enat_def numeral_eq_enat)
  from cstring_set_writes_and_terminates [OF m f t, of "[98, 117, 121, 101, 114]" "\<lambda>cs. 0"]
  have b: "\<exists>s'. set_field (\<lambda>cs. 0) ?s ''m'' (Str [98, 117, 121, 101, 114]) = (None, s') \<and>
                 buffer s' = [7, 98, 117, 121, 0, 9]"
    by (auto simp: u3 one_enat_def numeral_eq_enat)
  from c a b show ?thesis by blast
qed

subsection \<open>Text fields: reading\<close>

lemma word_of_int_uint_ucast16: "(word_of_int (uint b) :: 16 word) = ucast (b :: byte)"
  by (rule ucast_eq [symmetric])

lemma uint_eq_0_byte: "uint (b :: byte) = 0 \<longleftrightarrow> b = 0"
  by (simp add: uint_0_iff)

lemma getter_cstring_loop_reads:
  "len_f = enat (i + k) \<Longrightarrow> off + k \<le> length buf \<Longrightarrow>
   getter_cstring_loop buf len_f i off str =
     Inr (str @ map ucast (takeWhile (\<lambda>b. b \<noteq> 0) (take k (drop off buf))))"
proof (induction k arbitrary: i off str)
  case 0
  then show ?case by (subst getter_cstring_loop.simps) simp
next
  case (Suc k)
  have g: "getUint8 buf off = Inr (uint (buf ! off))"
    using Suc.prems(2) by (simp add: getUint8_in_range)
  have t: "take (Suc k) (drop off buf) = buf ! off # take k (drop (off + 1) buf)"
    using Suc.prems(2) by (simp add: Cons_nth_drop_Suc [symmetric])
  show ?case
  proof (cases "buf ! off = 0")
    case True
    then show ?thesis
      using Suc.prems(1) g by (subst getter_cstring_loop.simps) (simp add: t)
  next
    case False
    have "getter_cstring_loop buf len_f (i + 1) (off + 1) (str @ [ucast (buf ! off)]) =
          Inr ((str @ [ucast (buf ! off)]) @
               map ucast (takeWhile (\<lambda>b. b \<noteq> 0) (take k (drop (off + 1) buf))))"
      using Suc.prems by (intro Suc.IH) simp_all
    then show ?thesis
      using Suc.prems(1) g False
      by (subst getter_cstring_loop.simps)
         (simp add: t uint_eq_0_byte word_of_int_uint_ucast16)
  qed
qed

lemma get_field_cstring:
  assumes "defMap s name = Some d" and "fits s d" and "def_type d = CString"
    and "def_offset d = enat off" and "def_length d = enat c"
  shows "get_field s name =
           Inr (Str (map ucast (takeWhile (\<lambda>b. b \<noteq> 0) (take c (drop off (buffer s))))))"
proof -
  have r: "off + c \<le> length (buffer s)"
    using fits_enat [OF assms(2)] assms(3,4,5) by auto
  have "enat c = enat (0 + c)" by simp
  from getter_cstring_loop_reads [OF this r, of "[]"] assms(3) show ?thesis
    by (simp add: get_field_own [OF assms(1)] assms(4,5))
qed

text \<open>
  C4: \<^verbatim>\<open>get\<close> on a \<open>cstring\<close> field of length \<open>L\<close> whose bytes lie inside the buffer
  returns the bytes of the field before its first zero byte, each as the character of
  the same code; all \<open>L\<close> of them when the field has no zero byte. The result is a
  function of the \<open>L\<close> bytes of the field alone: it is the same in every instance
  whose field holds the same bytes, also in one whose buffer ends with the field, so
  no byte behind \<open>offset + L - 1\<close> is read.
\<close>

theorem cstring_get_reads_field_only:
  assumes "defMap s name = Some d" and "fits s d" and "def_type d = CString"
  shows "\<exists>off L field. def_offset d = enat off \<and> def_length d = enat L
       \<and> field = take L (drop off (buffer s))
       \<and> get_field s name = Inr (Str (map ucast (takeWhile (\<lambda>b. b \<noteq> 0) field)))
       \<and> length field = L
       \<and> map uint (map ucast (takeWhile (\<lambda>b. b \<noteq> 0) field) :: jsstring) =
           map uint (takeWhile (\<lambda>b. b \<noteq> 0) field)
       \<and> (list_all (\<lambda>b. b \<noteq> 0) field \<longrightarrow> get_field s name = Inr (Str (map ucast field)))
       \<and> (\<forall>k<L. field ! k = 0 \<and> list_all (\<lambda>b. b \<noteq> 0) (take k field) \<longrightarrow>
             get_field s name = Inr (Str (map ucast (take k field))))
       \<and> (\<forall>s2. defMap s2 name = Some d \<and> fits s2 d \<and>
                take L (drop off (buffer s2)) = field \<longrightarrow>
                get_field s2 name = get_field s name)"
proof -
  let ?P = "\<lambda>b :: byte. b \<noteq> 0"
  from fits_enat [OF assms(2)] assms(3) obtain off L where off: "def_offset d = enat off"
    and L: "def_length d = enat L" and r: "off + L \<le> length (buffer s)"
    by auto
  define field where "field = take L (drop off (buffer s))"
  have g: "get_field s name = Inr (Str (map ucast (takeWhile ?P field)))"
    unfolding field_def using assms(1-3) off L by (rule get_field_cstring)
  from r have l: "length field = L" by (simp add: field_def)
  have "uint (ucast b :: 16 word) = uint b" for b :: byte
    by (simp add: uint_up_ucast is_up)
  then have codes: "map uint (map ucast (takeWhile ?P field) :: jsstring) =
                    map uint (takeWhile ?P field)"
    by simp
  have full: "list_all ?P field \<longrightarrow> get_field s name = Inr (Str (map ucast field))"
  proof
    assume "list_all ?P field"
    then have "takeWhile ?P field = field" by (simp add: list_all_iff)
    with g show "get_field s name = Inr (Str (map ucast field))" by simp
  qed
  have upto: "\<forall>k<L. field ! k = 0 \<and> list_all ?P (take k field) \<longrightarrow>
                get_field s name = Inr (Str (map ucast (take k field)))"
  proof (intro allI impI)
    fix k
    assume k: "k < L" and z: "field ! k = 0 \<and> list_all ?P (take k field)"
    have "takeWhile ?P field = take k field"
    proof (rule takeWhile_eq_take_P_nth)
      fix i assume "i < k" "i < length field"
      with z show "field ! i \<noteq> 0" by (auto simp: list_all_length)
    next
      show "\<not> field ! k \<noteq> 0" using z by simp
    qed
    with g show "get_field s name = Inr (Str (map ucast (take k field)))" by simp
  qed
  have same: "\<forall>s2. defMap s2 name = Some d \<and> fits s2 d \<and>
                take L (drop off (buffer s2)) = field \<longrightarrow>
                get_field s2 name = get_field s name"
    using g assms(3) off L by (auto simp: get_field_cstring)
  from off L field_def g l codes full upto same show ?thesis by blast
qed

theorem cstring_get_reads_field_only_witness:
  "get_field \<lparr>defMap = [''m'' \<mapsto> \<lparr>def_type = CString, def_offset = 1, def_length = 3\<rparr>],
              buffer = [7, 98, 0, 121, 9], LITTE_ENDIAN = None\<rparr> ''m'' = Inr (Str [98])
   \<and> get_field \<lparr>defMap = [''m'' \<mapsto> \<lparr>def_type = CString, def_offset = 1, def_length = 3\<rparr>],
              buffer = [7, 98, 117, 121], LITTE_ENDIAN = None\<rparr> ''m'' = Inr (Str [98, 117, 121])"
proof -
  let ?d = "\<lparr>def_type = CString, def_offset = 1, def_length = 3\<rparr>"
  let ?a = "\<lparr>defMap = [''m'' \<mapsto> ?d], buffer = [7, 98, 0, 121, 9], LITTE_ENDIAN = None\<rparr>"
  let ?b = "\<lparr>defMap = [''m'' \<mapsto> ?d], buffer = [7, 98, 117, 121], LITTE_ENDIAN = None\<rparr>"
  have t: "def_type ?d = CString" by simp
  have ma: "defMap ?a ''m'' = Some ?d" and mb: "defMap ?b ''m'' = Some ?d" by simp_all
  have fa: "fits ?a ?d" and fb: "fits ?b ?d" by (simp_all add: fits_def def_footprint_def zero_enat_def one_enat_def numeral_eq_enat)
  have u: "map ucast [98, 117, 121 :: byte] = [98, 117, 121 :: 16 word]"
    "map ucast [98 :: byte] = [98 :: 16 word]" by simp_all
  from cstring_get_reads_field_only [OF ma fa t]
  have "get_field ?a ''m'' = Inr (Str [98])"
    by (auto simp: u one_enat_def numeral_eq_enat)
  moreover from cstring_get_reads_field_only [OF mb fb t]
  have "get_field ?b ''m'' = Inr (Str [98, 117, 121])"
    by (auto simp: u one_enat_def numeral_eq_enat)
  ultimately show ?thesis by blast
qed

subsection \<open>Rendering\<close>


lemma padZero_loop_returns:
  "0 \<le> len \<Longrightarrow> padZero_loop str len = Some (replicate (nat len) CHR ''0'' @ str)"
proof (induction "nat len" arbitrary: len str)
  case 0
  then have "len = 0" by simp
  then show ?case by (subst padZero_loop.simps) simp
next
  case (Suc k)
  then have l: "len \<noteq> 0" "0 \<le> len - 1" "k = nat (len - 1)" by simp_all
  have "padZero_loop (CHR ''0'' # str) (len - 1) =
        Some (replicate (nat (len - 1)) CHR ''0'' @ CHR ''0'' # str)"
    using Suc.hyps(1) [OF l(3) l(2)] .
  moreover have "replicate (nat len) CHR ''0'' = replicate (nat (len - 1)) CHR ''0'' @ [CHR ''0'']"
    unfolding Suc.hyps(2) [symmetric] l(3) [symmetric] by (simp add: replicate_append_same)
  ultimately show ?case using l(1) by (subst padZero_loop.simps) simp
qed

lemma padZero_returns:
  "length str \<le> count \<Longrightarrow>
   padZero str count = Some (replicate (count - length str) CHR ''0'' @ str)"
  by (simp add: padZero_def padZero_loop_returns nat_diff_distrib')

lemma digit_char_0: "digit_char 0 = CHR ''0''"
  by (simp add: digit_char_def)

lemma fixed_digits_0: "fixed_digits radix k 0 = replicate k CHR ''0''"
  by (induction k) (simp_all add: digit_char_0 replicate_append_same)

lemma length_fixed_digits [simp]: "length (fixed_digits radix k n) = k"
  by (induction k arbitrary: n) simp_all

lemma number_toString_padded:
  "2 \<le> radix \<Longrightarrow> 0 < k \<Longrightarrow> n < radix ^ k \<Longrightarrow>
   length (number_toString radix n) \<le> k \<and>
   replicate (k - length (number_toString radix n)) CHR ''0'' @ number_toString radix n =
     fixed_digits radix k n"
proof (induction k arbitrary: n)
  case 0
  then show ?case by simp
next
  case (Suc k)
  show ?case
  proof (cases "radix \<le> n")
    case False
    then have "number_toString radix n = [digit_char n]"
      by (subst number_toString.simps) simp
    moreover have "n div radix = 0" "n mod radix = n" using False by simp_all
    ultimately show ?thesis by (simp add: fixed_digits_0)
  next
    case True
    with Suc.prems have k: "0 < k"
      by (cases k) auto
    have d: "n div radix < radix ^ k"
      using Suc.prems by (simp add: less_mult_imp_div_less mult.commute)
    have u: "number_toString radix n =
             number_toString radix (n div radix) @ [digit_char (n mod radix)]"
      using True Suc.prems(1) by (subst number_toString.simps) simp
    from Suc.IH [OF Suc.prems(1) k d] show ?thesis
      by (simp add: u Suc_diff_le)
  qed
qed

lemma padZero_number_toString:
  assumes "2 \<le> radix" "0 < k" "n < radix ^ k"
  shows "padZero (number_toString radix n) k = Some (fixed_digits radix k n)"
  using number_toString_padded [OF assms] by (simp add: padZero_returns)

lemma render_cb_no_index:
  "render_cb radix width = (\<lambda>v j a. render_cb radix width v 0 a)"
  by (simp add: render_cb_def fun_eq_iff)

lemma fold_render_cb:
  assumes "2 \<le> radix" "0 < width" "radix ^ width = 256"
  shows "fold (\<lambda>b a. render_cb radix width (uint b) 0 a) (bs :: byte list) (Some str) =
           Some (str @ concat (map (\<lambda>b. fixed_digits radix width (unat b)) bs))"
proof (induction bs arbitrary: str)
  case Nil
  then show ?case by simp
next
  case (Cons b bs)
  have "unat b < 2 ^ LENGTH(8)" by (rule unsigned_less)
  then have "unat b < radix ^ width" using assms(3) by simp
  from padZero_number_toString [OF assms(1,2) this]
  have "render_cb radix width (uint b) 0 (Some str) =
        Some (str @ fixed_digits radix width (unat b))"
    by (simp add: render_cb_def)
  then show ?case by (simp add: Cons.IH)
qed

lemma eachByte_render:
  assumes "2 \<le> radix" "0 < width" "radix ^ width = 256"
  shows "eachByte s (render_cb radix width) (Some []) =
           Inr (Some (concat (map (\<lambda>b. fixed_digits radix width (unat b)) (buffer s))))"
proof -
  have "eachByte s (render_cb radix width) (Some []) =
        eachByte s (\<lambda>v j a. render_cb radix width v 0 a) (Some [])"
    by (subst render_cb_no_index) simp
  also have "\<dots> = Inr (fold (\<lambda>b a. render_cb radix width (uint b) 0 a) (buffer s) (Some []))"
    by (rule eachByte_no_index)
  finally show ?thesis by (simp add: fold_render_cb [OF assms])
qed

lemma toString_hex_text:
  "toString_hex s = Inr (Some (concat (map (\<lambda>b. fixed_digits 16 2 (unat b)) (buffer s))))"
  unfolding toString_hex_def by (rule eachByte_render) simp_all

lemma toString_binary_text:
  "toString_binary s = Inr (Some (concat (map (\<lambda>b. fixed_digits 2 8 (unat b)) (buffer s))))"
  unfolding toString_binary_def by (rule eachByte_render) simp_all

text \<open>
  C9, as amended: the hex renderer, which is also the one taken when no mode or the
  empty mode is passed, returns for every byte of the buffer, in order, its two hex
  digits, and the binary renderer its eight binary digits. A mode that is not empty,
  not one of the two and not a name that \<^verbatim>\<open>Object.prototype\<close> has makes \<^verbatim>\<open>toString\<close>
  throw.
\<close>

theorem render_hex_and_binary:
  "toString s (Some ''hex'') =
     Inr (Text (concat (map (\<lambda>b. fixed_digits 16 2 (unat b)) (buffer s))))
   \<and> toString s None = toString s (Some ''hex'')
   \<and> toString s (Some []) = toString s (Some ''hex'')
   \<and> toString s (Some ''binary'') =
     Inr (Text (concat (map (\<lambda>b. fixed_digits 2 8 (unat b)) (buffer s))))
   \<and> length (fixed_digits 16 2 n) = 2 \<and> length (fixed_digits 2 8 n) = 8
   \<and> (mode \<noteq> [] \<and> mode \<noteq> ''hex'' \<and> mode \<noteq> ''binary'' \<and> mode \<notin> set objproto_names \<longrightarrow>
        toString s (Some mode) = Inl TypeError)"
proof -
  have h: "toString s (Some ''hex'') =
           Inr (Text (concat (map (\<lambda>b. fixed_digits 16 2 (unat b)) (buffer s))))"
    by (simp add: toString_def toString_hex_text text_of_def)
  have n: "toString s None = toString s (Some ''hex'')"
    by (simp add: toString_def)
  have e: "toString s (Some []) = toString s (Some ''hex'')"
    by (simp add: toString_def)
  have b: "toString s (Some ''binary'') =
           Inr (Text (concat (map (\<lambda>b. fixed_digits 2 8 (unat b)) (buffer s))))"
    by (simp add: toString_def toString_binary_text text_of_def)
  have u: "mode \<noteq> [] \<and> mode \<noteq> ''hex'' \<and> mode \<noteq> ''binary'' \<and> mode \<notin> set objproto_names \<longrightarrow>
           toString s (Some mode) = Inl TypeError"
    by (simp add: toString_def)
  from h n e b u show ?thesis by simp
qed

theorem render_hex_and_binary_witness:
  "toString \<lparr>defMap = [''bodyType'' \<mapsto> \<lparr>def_type = UInt8, def_offset = 0, def_length = 1\<rparr>],
             buffer = [255], LITTE_ENDIAN = None\<rparr> (Some ''hex'') = Inr (Text ''ff'')
   \<and> toString \<lparr>defMap = [''bodyType'' \<mapsto> \<lparr>def_type = UInt8, def_offset = 0, def_length = 1\<rparr>],
             buffer = [255], LITTE_ENDIAN = None\<rparr> (Some ''binary'') = Inr (Text ''11111111'')
   \<and> toString \<lparr>defMap = [''bodyType'' \<mapsto> \<lparr>def_type = UInt8, def_offset = 0, def_length = 1\<rparr>],
             buffer = [255], LITTE_ENDIAN = None\<rparr> (Some ''octal'') = Inl TypeError"
proof -
  let ?s = "\<lparr>defMap = [''bodyType'' \<mapsto> \<lparr>def_type = UInt8, def_offset = 0, def_length = 1\<rparr>],
            buffer = [255], LITTE_ENDIAN = None\<rparr>"
  have x: "fixed_digits 16 2 255 = ''ff''"
    by code_simp
  have y: "fixed_digits 2 8 255 = ''11111111''"
    by code_simp
  have m: "''octal'' \<noteq> [] \<and> ''octal'' \<noteq> ''hex'' \<and> ''octal'' \<noteq> ''binary'' \<and>
           ''octal'' \<notin> set objproto_names"
    by (simp add: objproto_names_def)
  from render_hex_and_binary [of ?s _ "''octal''"] m show ?thesis
    by (simp add: x y)
qed

text \<open>
  The claim as stated fails in two ways. The empty mode is neither \<open>hex\<close> nor
  \<open>binary\<close>, and \<^verbatim>\<open>toString\<close> renders hex for it. And around a buffer that the
  caller passed, all bytes of the buffer are rendered, not those of the layout: two
  bytes for the one-byte layout \<^verbatim>\<open>['uint8 bodyType']\<close>.
\<close>

theorem render_counterexample:
  "toString \<lparr>defMap = [''bodyType'' \<mapsto> \<lparr>def_type = UInt8, def_offset = 0, def_length = 1\<rparr>],
             buffer = [255], LITTE_ENDIAN = None\<rparr> (Some []) = Inr (Text ''ff'')
   \<and> Struct [''uint8 bodyType''] (Some [255, 2]) None =
       Inr \<lparr>defMap = [''bodyType'' \<mapsto> \<lparr>def_type = UInt8, def_offset = 0, def_length = 1\<rparr>],
            buffer = [255, 2], LITTE_ENDIAN = None\<rparr>
   \<and> parseDefs [''uint8 bodyType''] =
       Inr ([''bodyType'' \<mapsto> \<lparr>def_type = UInt8, def_offset = 0, def_length = 1\<rparr>], 1)
   \<and> toString \<lparr>defMap = [''bodyType'' \<mapsto> \<lparr>def_type = UInt8, def_offset = 0, def_length = 1\<rparr>],
             buffer = [255, 2], LITTE_ENDIAN = None\<rparr> (Some ''hex'') = Inr (Text ''ff02'')"
proof -
  have x: "fixed_digits 16 2 255 = ''ff''" "fixed_digits 16 2 2 = ''02''"
    by code_simp+
  have p: "parseDefs [''uint8 bodyType''] =
       Inr ([''bodyType'' \<mapsto> \<lparr>def_type = UInt8, def_offset = 0, def_length = 1\<rparr>], 1)"
    by (simp add: compile_defs)
  show ?thesis
    by (simp add: toString_def toString_hex_text text_of_def x Struct_def p)
qed

subsection \<open>Unknown field names\<close>

text \<open>
  A name that the map does not own and does not inherit is rejected by
  \<^verbatim>\<open>_getDefByName\<close> with the error that carries the name, and the instance is as it
  was.
\<close>

theorem unknown_field_rejected:
  assumes "defMap s name = None" and "defMap s ''__proto__'' = None"
    and "name \<notin> set objproto_names"
  shows "get_field s name = Inl (Error (name @ ''does not defined''))
       \<and> set_field tn s name v = (Some (Error (name @ ''does not defined'')), s)"
  using assms by (simp add: get_field_def set_field_def getDefByName_def defMap_get_def)

theorem unknown_field_rejected_witness:
  "get_field \<lparr>defMap = [''a'' \<mapsto> \<lparr>def_type = UInt8, def_offset = 0, def_length = 1\<rparr>],
              buffer = [0], LITTE_ENDIAN = None\<rparr> ''nonexistent'' =
     Inl (Error ''nonexistentdoes not defined'')
   \<and> set_field (\<lambda>cs. 0)
       \<lparr>defMap = [''a'' \<mapsto> \<lparr>def_type = UInt8, def_offset = 0, def_length = 1\<rparr>],
        buffer = [0], LITTE_ENDIAN = None\<rparr> ''nonexistent'' (Num 1) =
     (Some (Error ''nonexistentdoes not defined''),
      \<lparr>defMap = [''a'' \<mapsto> \<lparr>def_type = UInt8, def_offset = 0, def_length = 1\<rparr>],
       buffer = [0], LITTE_ENDIAN = None\<rparr>)"
proof -
  let ?s = "\<lparr>defMap = [''a'' \<mapsto> \<lparr>def_type = UInt8, def_offset = 0, def_length = 1\<rparr>],
            buffer = [0 :: byte], LITTE_ENDIAN = None\<rparr>"
  have a: "defMap ?s ''nonexistent'' = None" by simp
  have b: "defMap ?s ''__proto__'' = None" by simp
  have c: "''nonexistent'' \<notin> set objproto_names" by (simp add: objproto_names_def)
  from unknown_field_rejected [OF a b c, of "\<lambda>cs. 0" "Num 1"] show ?thesis by simp
qed

text \<open>
  C7 does not hold for a name that the map inherits. \<^verbatim>\<open>toString\<close> is absent from
  the layout of \<^verbatim>\<open>['uint8 a']\<close>, and both \<^verbatim>\<open>get\<close> and \<^verbatim>\<open>set\<close> get past
  \<^verbatim>\<open>_getDefByName\<close> with the function of \<^verbatim>\<open>Object.prototype\<close> and then throw a
  \<^verbatim>\<open>TypeError\<close>, not the error that names the field. The buffer is unchanged.
\<close>

theorem unknown_field_inherited_name:
  "Struct [''uint8 a''] None None =
     Inr \<lparr>defMap = [''a'' \<mapsto> \<lparr>def_type = UInt8, def_offset = 0, def_length = 1\<rparr>],
          buffer = [0], LITTE_ENDIAN = None\<rparr>
   \<and> get_field \<lparr>defMap = [''a'' \<mapsto> \<lparr>def_type = UInt8, def_offset = 0, def_length = 1\<rparr>],
          buffer = [0], LITTE_ENDIAN = None\<rparr> ''toString'' = Inl TypeError
   \<and> set_field (\<lambda>cs. 0)
         \<lparr>defMap = [''a'' \<mapsto> \<lparr>def_type = UInt8, def_offset = 0, def_length = 1\<rparr>],
          buffer = [0], LITTE_ENDIAN = None\<rparr> ''toString'' (Num 1) =
       (Some TypeError,
        \<lparr>defMap = [''a'' \<mapsto> \<lparr>def_type = UInt8, def_offset = 0, def_length = 1\<rparr>],
         buffer = [0], LITTE_ENDIAN = None\<rparr>)"
proof -
  have p: "parseDefs [''uint8 a''] =
       Inr ([''a'' \<mapsto> \<lparr>def_type = UInt8, def_offset = 0, def_length = 1\<rparr>], 1)"
    by (simp add: compile_defs)
  show ?thesis
    by (simp add: Struct_def p get_field_def set_field_def getDefByName_def defMap_get_def
        objproto_names_def one_enat_def)
qed

end
